theory Spec2Isabelle
  imports Main "HOL-Library.Word" "HOL-Library.Sublist"
begin

unbundle bit_operations_syntax

section \<open>Data model\<close>

text \<open>
  A Python \<open>bytes\<close> object is a list of 8-bit words.  Python integers that are
  computed from bytes before they are packed again with \<open>bytes(...)\<close> are natural
  numbers, and a Python \<open>str\<close> is the list of its code points.
\<close>

type_synonym byte = "8 word"
type_synonym bytes = "byte list"
type_synonym str = "nat list"

datatype error =
    TypeError
  | ValueError
  | BinasciiError
  | IndexError
  | OverflowError
  | UnicodeDecodeError
  | UnicodeEncodeError

text \<open>
  \<open>bytes(iterable_of_ints)\<close>: every element has to lie in \<open>range(256)\<close>, otherwise
  the constructor raises \<open>ValueError\<close>.
\<close>

fun bytes_of_ints :: "nat list \<Rightarrow> error + bytes" where
  "bytes_of_ints [] = Inr []"
| "bytes_of_ints (n # ns) =
     (if n < 256
      then (case bytes_of_ints ns of Inl e \<Rightarrow> Inl e | Inr bs \<Rightarrow> Inr (word_of_nat n # bs))
      else Inl ValueError)"

text \<open>
  What a decoder hands back: it raises (\<open>Inl\<close>), returns \<open>None\<close> (\<open>Inr None\<close>) or
  returns bytes (\<open>Inr (Some bs)\<close>).
\<close>

type_synonym decoded = "error + bytes option"

section \<open>Single-byte XOR\<close>

text \<open>
  \<open>xor_pattern = bytes(xorval ^ x for x in pattern)\<close> and
  \<open>xor_decoder = lambda s, xorval=xorval: bytes(xorval ^ x for x in s)\<close>.
\<close>

definition xor_bytes :: "nat \<Rightarrow> bytes \<Rightarrow> error + bytes" where
  "xor_bytes xorval s = bytes_of_ints (map (\<lambda>x. xorval XOR unat x) s)"

definition xor_decoder :: "nat \<Rightarrow> bytes \<Rightarrow> decoded" where
  "xor_decoder xorval s =
     (case xor_bytes xorval s of Inl e \<Rightarrow> Inl e | Inr bs \<Rightarrow> Inr (Some bs))"

section \<open>Text codecs: UTF-8\<close>

text \<open>
  \<open>bytes.decode()\<close> and \<open>str.encode()\<close> use UTF-8 in strict mode.  The decoder
  accepts exactly the well-formed byte sequences of the Unicode standard (no overlong
  forms, no surrogates, nothing above U+10FFFF) and raises \<open>UnicodeDecodeError\<close> on
  everything else; the encoder raises \<open>UnicodeEncodeError\<close> on a surrogate.
\<close>

definition in_range :: "nat \<Rightarrow> nat \<Rightarrow> byte \<Rightarrow> bool" where
  "in_range lo hi b = (lo \<le> unat b \<and> unat b \<le> hi)"

fun utf8_next :: "bytes \<Rightarrow> (nat \<times> bytes) option" where
  "utf8_next [] = None"
| "utf8_next (b # bs) =
     (let n = unat b in
      if n < 128 then Some (n, bs)
      else if 194 \<le> n \<and> n \<le> 223 then
        (case bs of
           c1 # r \<Rightarrow>
             if in_range 128 191 c1
             then Some ((n - 192) * 64 + (unat c1 - 128), r) else None
         | _ \<Rightarrow> None)
      else if 224 \<le> n \<and> n \<le> 239 then
        (case bs of
           c1 # c2 # r \<Rightarrow>
             if in_range (if n = 224 then 160 else 128) (if n = 237 then 159 else 191) c1
                \<and> in_range 128 191 c2
             then Some ((n - 224) * 4096 + (unat c1 - 128) * 64 + (unat c2 - 128), r)
             else None
         | _ \<Rightarrow> None)
      else if 240 \<le> n \<and> n \<le> 244 then
        (case bs of
           c1 # c2 # c3 # r \<Rightarrow>
             if in_range (if n = 240 then 144 else 128) (if n = 244 then 143 else 191) c1
                \<and> in_range 128 191 c2 \<and> in_range 128 191 c3
             then Some ((n - 240) * 262144 + (unat c1 - 128) * 4096
                        + (unat c2 - 128) * 64 + (unat c3 - 128), r)
             else None
         | _ \<Rightarrow> None)
      else None)"

lemma utf8_next_shorter: "utf8_next bs = Some (cp, r) \<Longrightarrow> length r < length bs"
  by (cases bs) (auto simp: Let_def split: if_splits list.splits)

function utf8_decode :: "bytes \<Rightarrow> error + str" where
  "utf8_decode bs =
     (if bs = [] then Inr []
      else (case utf8_next bs of
              None \<Rightarrow> Inl UnicodeDecodeError
            | Some (cp, r) \<Rightarrow>
                (case utf8_decode r of Inl e \<Rightarrow> Inl e | Inr cps \<Rightarrow> Inr (cp # cps))))"
  by pat_completeness auto
termination
  by (relation "measure length") (auto dest: utf8_next_shorter)

declare utf8_decode.simps [simp del]

definition utf8_encode_char :: "nat \<Rightarrow> bytes option" where
  "utf8_encode_char cp =
     (if cp < 128 then Some [word_of_nat cp]
      else if cp < 2048 then
        Some [word_of_nat (192 + cp div 64), word_of_nat (128 + cp mod 64)]
      else if cp < 65536 then
        (if 55296 \<le> cp \<and> cp \<le> 57343 then None
         else Some [word_of_nat (224 + cp div 4096),
                    word_of_nat (128 + cp div 64 mod 64),
                    word_of_nat (128 + cp mod 64)])
      else if cp < 1114112 then
        Some [word_of_nat (240 + cp div 262144),
              word_of_nat (128 + cp div 4096 mod 64),
              word_of_nat (128 + cp div 64 mod 64),
              word_of_nat (128 + cp mod 64)]
      else None)"

fun utf8_encode :: "str \<Rightarrow> error + bytes" where
  "utf8_encode [] = Inr []"
| "utf8_encode (cp # cps) =
     (case utf8_encode_char cp of
        None \<Rightarrow> Inl UnicodeEncodeError
      | Some bs \<Rightarrow> (case utf8_encode cps of Inl e \<Rightarrow> Inl e | Inr rest \<Rightarrow> Inr (bs @ rest)))"

section \<open>Postprocessing a decoded match\<close>

definition CLOSING_CHAR :: byte where
  "CLOSING_CHAR = 125"

definition MAX_FLAG_LENGTH :: nat where
  "MAX_FLAG_LENGTH = 2000"

text \<open>
  The \<open>for i, match_byte in enumerate(raw_match)\<close> loop of \<open>postprocess_match\<close>:
  the index of the first byte below 32 or above 126, at which the loop cuts and breaks.
\<close>

fun first_unprintable :: "nat \<Rightarrow> bytes \<Rightarrow> nat option" where
  "first_unprintable i [] = None"
| "first_unprintable i (match_byte # rest) =
     (if match_byte < 32 \<or> match_byte > 126 then Some i
      else first_unprintable (Suc i) rest)"

text \<open>\<open>bytes.split(sep)\<close> for a separator of one byte.\<close>

fun split_byte :: "byte \<Rightarrow> bytes \<Rightarrow> bytes list" where
  "split_byte sep [] = [[]]"
| "split_byte sep (b # bs) =
     (if b = sep then [] # split_byte sep bs
      else (case split_byte sep bs of
              [] \<Rightarrow> [[b]]
            | piece # pieces \<Rightarrow> (b # piece) # pieces))"

text \<open>
  \<open>postprocess_match\<close> is called with whatever the decoder returned, also with
  \<open>None\<close>, on which \<open>enumerate\<close> raises \<open>TypeError\<close>.
\<close>

definition postprocess_match :: "bytes option \<Rightarrow> error + str" where
  "postprocess_match decoded_flag =
     (case decoded_flag of
        None \<Rightarrow> Inl TypeError
      | Some raw_match \<Rightarrow>
          (let raw_match1 =
                 (case first_unprintable 0 raw_match of
                    None \<Rightarrow> raw_match
                  | Some i \<Rightarrow> take i raw_match);
               raw_match2 =
                 (if CLOSING_CHAR \<in> set raw_match1
                  then (case split_byte CLOSING_CHAR raw_match1 of
                          [] \<Rightarrow> raw_match1
                        | piece # _ \<Rightarrow> piece @ [CLOSING_CHAR])
                  else raw_match1)
           in utf8_decode raw_match2))"

text \<open>
  The postprocessing as the specification words it: the longest leading run of
  printable ASCII, cut right after the first closing delimiter when the run has one.
\<close>

definition printable :: "byte \<Rightarrow> bool" where
  "printable b = (32 \<le> unat b \<and> unat b \<le> 126)"

definition spec_postprocess :: "bytes \<Rightarrow> bytes" where
  "spec_postprocess d =
     (let run = takeWhile printable d
      in if CLOSING_CHAR \<in> set run
         then takeWhile (\<lambda>b. b \<noteq> CLOSING_CHAR) run @ [CLOSING_CHAR]
         else run)"

section \<open>Haystack views\<close>

text \<open>Decimal rendering of a non-negative integer inside an f-string.\<close>

function str_nat :: "nat \<Rightarrow> string" where
  "str_nat n =
     (if n < 10 then [''0123456789'' ! n]
      else str_nat (n div 10) @ [''0123456789'' ! (n mod 10)])"
  by pat_completeness auto
termination
  by (relation "measure id") auto

declare str_nat.simps [simp del]

text \<open>
  The extended slice \<open>s[start::step]\<close> for \<open>0 \<le> start\<close> and \<open>1 \<le> step\<close>: by the
  language reference, the items with index \<open>start + n * step\<close> below \<open>len(s)\<close>.
\<close>

definition slice_step :: "'a list \<Rightarrow> nat \<Rightarrow> nat \<Rightarrow> 'a list" where
  "slice_step s start step =
     map (\<lambda>n. s ! (start + n * step)) [0..<(length s + step - 1 - start) div step]"

definition stride_name :: "nat \<Rightarrow> nat \<Rightarrow> string" where
  "stride_name startpos step = ''stream['' @ str_nat startpos @ ''::'' @ str_nat step @ '']''"

text \<open>The generator \<open>generate_haystacks\<close>, as the list of what it yields, in order.\<close>

definition generate_haystacks :: "bytes \<Rightarrow> bool \<Rightarrow> (bytes \<times> string) list" where
  "generate_haystacks base_haystack fast =
     (let nb_steps = (if \<not> fast then 33 else 8)
      in [(base_haystack, ''stream'')]
         @ concat (map (\<lambda>step.
                     map (\<lambda>startpos. (slice_step base_haystack startpos step,
                                       stride_name startpos step))
                         [0..<step])
                   [2..<nb_steps])
         @ [(rev base_haystack, ''reversed stream'')])"

text \<open>
  The views as the specification words them: the steps run from 2 up to the configured
  maximum, 33 in full mode and 8 in fast mode.
\<close>

definition spec_generate_views :: "bytes \<Rightarrow> bool \<Rightarrow> (bytes \<times> string) list" where
  "spec_generate_views B fast =
     (let maximum = (if fast then 8 else 33)
      in [(B, ''stream'')]
         @ concat (map (\<lambda>step.
                     map (\<lambda>start. (nths B {i. \<exists>n. i = start + n * step},
                                    stride_name start step))
                         [0..<step])
                   [2..<Suc maximum])
         @ [(rev B, ''reversed stream'')])"

section \<open>ROT13 and ROT47\<close>

text \<open>
  Both transforms build a dictionary from characters to characters, map every byte of
  the message through it (\<open>d.get(chr(c), chr(c))\<close>) and encode the resulting string
  with \<open>str.encode\<close>, that is as UTF-8.
\<close>

definition rot13_table :: "nat \<rightharpoonup> nat" where
  "rot13_table =
     fold (\<lambda>c d. fold (\<lambda>i d. d(i + c \<mapsto> (i + 13) mod 26 + c)) [0..<26] d)
          [65, 97] Map.empty"

definition crypt_rot13 :: "bytes \<Rightarrow> error + bytes" where
  "crypt_rot13 message =
     utf8_encode (map (\<lambda>c. case rot13_table (unat c) of None \<Rightarrow> unat c | Some v \<Rightarrow> v)
                      message)"

definition rot47_table :: "nat \<rightharpoonup> nat" where
  "rot47_table =
     fold (\<lambda>letter d. d(letter + 33 \<mapsto> (33 + letter) - 47)) [47..<94]
       (fold (\<lambda>letter d. d(letter + 33 \<mapsto> (33 + letter) + 47)) [0..<47] Map.empty)"

definition crypt_rot47 :: "bytes \<Rightarrow> error + bytes" where
  "crypt_rot47 message =
     utf8_encode (map (\<lambda>c. case rot47_table (unat c) of None \<Rightarrow> unat c | Some v \<Rightarrow> v)
                      message)"

text \<open>What the dictionaries do to one character.\<close>

definition rot13_char :: "nat \<Rightarrow> nat" where
  "rot13_char n = (case rot13_table n of None \<Rightarrow> n | Some v \<Rightarrow> v)"

definition rot47_char :: "nat \<Rightarrow> nat" where
  "rot47_char n = (case rot47_table n of None \<Rightarrow> n | Some v \<Rightarrow> v)"

section \<open>Encoders and decoders\<close>

text \<open>A bytes literal such as \<open>b'0123456789abcdef'\<close>.\<close>

definition ascii :: "string \<Rightarrow> bytes" where
  "ascii s = map of_char s"

text \<open>
  The loops \<open>for i in range(len(match)): if bad(match[i]): match = match[:i]; break\<close>
  of the decoders: the index at which the loop cuts, if it does.
\<close>

fun first_index :: "(byte \<Rightarrow> bool) \<Rightarrow> nat \<Rightarrow> bytes \<Rightarrow> nat option" where
  "first_index bad i [] = None"
| "first_index bad i (b # bs) = (if bad b then Some i else first_index bad (Suc i) bs)"

definition cut_at_first :: "(byte \<Rightarrow> bool) \<Rightarrow> bytes \<Rightarrow> bytes" where
  "cut_at_first bad match =
     (case first_index bad 0 match of None \<Rightarrow> match | Some i \<Rightarrow> take i match)"

text \<open>\<open>match = match[:-1]\<close> when the length is odd.\<close>

definition drop_odd :: "bytes \<Rightarrow> bytes" where
  "drop_odd match = (if length match mod 2 \<noteq> 0 then butlast match else match)"

text \<open>\<open>while len(match) % 8: match = match[:-1]\<close>.\<close>

function trim_to_octets :: "bytes \<Rightarrow> bytes" where
  "trim_to_octets match =
     (if length match mod 8 \<noteq> 0 then trim_to_octets (butlast match) else match)"
  by pat_completeness auto
termination
  by (relation "measure length") (auto intro: Nat.gr0I)

declare trim_to_octets.simps [simp del]

subsection \<open>Hexadecimal\<close>

definition hexdigits :: bytes where
  "hexdigits = ascii ''0123456789abcdef''"

text \<open>\<open>binascii.hexlify\<close>: two lower-case digits for each byte.\<close>

definition hexlify :: "bytes \<Rightarrow> bytes" where
  "hexlify data =
     concat (map (\<lambda>b. [hexdigits ! (unat b div 16), hexdigits ! (unat b mod 16)]) data)"

text \<open>The value of a hexadecimal digit, of either case.\<close>

definition hex_value :: "byte \<Rightarrow> nat option" where
  "hex_value c =
     (let n = unat c in
      if 48 \<le> n \<and> n \<le> 57 then Some (n - 48)
      else if 97 \<le> n \<and> n \<le> 102 then Some (n - 87)
      else if 65 \<le> n \<and> n \<le> 70 then Some (n - 55)
      else None)"

text \<open>
  \<open>binascii.unhexlify\<close>: raises \<open>binascii.Error\<close> on a string of odd length or on
  a character that is no hexadecimal digit.
\<close>

fun unhexlify :: "bytes \<Rightarrow> error + bytes" where
  "unhexlify [] = Inr []"
| "unhexlify [c] = Inl BinasciiError"
| "unhexlify (hi # lo # rest) =
     (case (hex_value hi, hex_value lo) of
        (Some h, Some l) \<Rightarrow>
          (case unhexlify rest of
             Inl e \<Rightarrow> Inl e
           | Inr bs \<Rightarrow> Inr (word_of_nat (h * 16 + l) # bs))
      | _ \<Rightarrow> Inl BinasciiError)"

definition hex_decoder :: "bytes \<Rightarrow> decoded" where
  "hex_decoder match =
     (case unhexlify (drop_odd (cut_at_first (\<lambda>b. b \<notin> set hexdigits) match)) of
        Inl e \<Rightarrow> Inl e
      | Inr bs \<Rightarrow> Inr (Some bs))"

text \<open>
  \<open>bytes(match[i] << 4 | match[i+1] for i in range(0, len(match), 2))\<close>: the integers
  that are handed to \<open>bytes\<close>.  An index past the end raises \<open>IndexError\<close>.
\<close>

fun nibble_pairs :: "bytes \<Rightarrow> error + nat list" where
  "nibble_pairs [] = Inr []"
| "nibble_pairs [hi] = Inl IndexError"
| "nibble_pairs (hi # lo # rest) =
     (case nibble_pairs rest of
        Inl e \<Rightarrow> Inl e
      | Inr ns \<Rightarrow> Inr ((push_bit 4 (unat hi) OR unat lo) # ns))"

definition hex_bytes_decoder :: "bytes \<Rightarrow> decoded" where
  "hex_bytes_decoder match =
     (case nibble_pairs (drop_odd (cut_at_first (\<lambda>b. b > 15) match)) of
        Inl e \<Rightarrow> Inl e
      | Inr ns \<Rightarrow> (case bytes_of_ints ns of Inl e \<Rightarrow> Inl e | Inr bs \<Rightarrow> Inr (Some bs)))"

subsection \<open>Binary\<close>

text \<open>
  \<open>int(bitstring, 2)\<close> on a bytes object.  The decoders only pass strings made of the
  digits 0 and 1: the empty string raises \<open>ValueError\<close>, and so does, in this model,
  every string with another character (signs, underscores, blanks and the \<open>0b\<close> prefix,
  which \<open>int\<close> would accept, never reach it).
\<close>

definition int_base2 :: "bytes \<Rightarrow> error + nat" where
  "int_base2 bitstring =
     (if bitstring = [] \<or> (\<exists>c \<in> set bitstring. c \<noteq> 48 \<and> c \<noteq> 49) then Inl ValueError
      else Inr (foldl (\<lambda>acc c. 2 * acc + (unat c - 48)) 0 bitstring))"

text \<open>\<open>n.to_bytes(length, byteorder='big')\<close>; \<open>OverflowError\<close> when \<open>n\<close> does not fit.\<close>

definition to_bytes_big :: "nat \<Rightarrow> nat \<Rightarrow> error + bytes" where
  "to_bytes_big n len =
     (if n < 256 ^ len
      then Inr (map (\<lambda>i. word_of_nat (n div 256 ^ (len - 1 - i) mod 256)) [0..<len])
      else Inl OverflowError)"

definition bitstring_to_bytes :: "bytes \<Rightarrow> error + bytes" where
  "bitstring_to_bytes bitstring =
     (case int_base2 bitstring of
        Inl e \<Rightarrow> Inl e
      | Inr n \<Rightarrow> to_bytes_big n (length bitstring div 8))"

definition binary_decoder :: "bytes \<Rightarrow> decoded" where
  "binary_decoder match =
     (case bitstring_to_bytes (trim_to_octets (cut_at_first (\<lambda>b. b \<notin> set (ascii ''01'')) match)) of
        Inl e \<Rightarrow> Inl e
      | Inr bs \<Rightarrow> Inr (Some bs))"

definition binary_bytes_decoder :: "bytes \<Rightarrow> decoded" where
  "binary_bytes_decoder match =
     (case bytes_of_ints
             (map (\<lambda>x. 48 + unat x) (trim_to_octets (cut_at_first (\<lambda>b. b > 1) match))) of
        Inl e \<Rightarrow> Inl e
      | Inr bin_converted \<Rightarrow>
          (case bitstring_to_bytes bin_converted of
             Inl e \<Rightarrow> Inl e
           | Inr bs \<Rightarrow> Inr (Some bs)))"

text \<open>\<open>f'{pb:08b}'\<close>: the binary digits of \<open>pb\<close>, padded with zeros to eight characters.\<close>

function bin_digits :: "nat \<Rightarrow> str" where
  "bin_digits n = (if n < 2 then [48 + n] else bin_digits (n div 2) @ [48 + n mod 2])"
  by pat_completeness auto
termination
  by (relation "measure id") auto

declare bin_digits.simps [simp del]

definition format_08b :: "nat \<Rightarrow> str" where
  "format_08b pb = replicate (8 - length (bin_digits pb)) 48 @ bin_digits pb"


subsection \<open>Base64\<close>

definition b64_alphabet :: bytes where
  "b64_alphabet = ascii ''ABCDEFGHIJKLMNOPQRSTUVWXYZabcdefghijklmnopqrstuvwxyz0123456789+/''"

definition PAD :: byte where
  "PAD = 61"

text \<open>\<open>base64.b64encode\<close>: three bytes give four symbols, the last group is padded.\<close>

fun b64encode :: "bytes \<Rightarrow> bytes" where
  "b64encode [] = []"
| "b64encode [a] =
     (let n = unat a * 65536
      in [b64_alphabet ! (n div 262144), b64_alphabet ! (n div 4096 mod 64), PAD, PAD])"
| "b64encode [a, b] =
     (let n = unat a * 65536 + unat b * 256
      in [b64_alphabet ! (n div 262144), b64_alphabet ! (n div 4096 mod 64),
          b64_alphabet ! (n div 64 mod 64), PAD])"
| "b64encode (a # b # c # rest) =
     (let n = unat a * 65536 + unat b * 256 + unat c
      in [b64_alphabet ! (n div 262144), b64_alphabet ! (n div 4096 mod 64),
          b64_alphabet ! (n div 64 mod 64), b64_alphabet ! (n mod 64)] @ b64encode rest)"

text \<open>\<open>bytes.rstrip(b'=')\<close>.\<close>

definition rstrip_pad :: "bytes \<Rightarrow> bytes" where
  "rstrip_pad s = rev (dropWhile (\<lambda>c. c = PAD) (rev s))"

text \<open>The value of a symbol of the alphabet.\<close>

definition b64_value :: "byte \<Rightarrow> nat option" where
  "b64_value c =
     (let n = unat c in
      if 65 \<le> n \<and> n \<le> 90 then Some (n - 65)
      else if 97 \<le> n \<and> n \<le> 122 then Some (n - 71)
      else if 48 \<le> n \<and> n \<le> 57 then Some (n + 4)
      else if n = 43 then Some 62
      else if n = 47 then Some 63
      else None)"

text \<open>
  \<open>base64.b64decode(s)\<close> is \<open>binascii.a2b_base64\<close> without validation: characters
  outside the alphabet are skipped; a pad character ends the input once the current
  group of four has at least two symbols and the pads fill it; at the end of the input
  an unfinished group raises \<open>binascii.Error\<close>.  The state is the position in the
  group, the bits left over from the previous symbol, the pads seen since the last
  symbol, and the bytes written so far.
\<close>

fun a2b_base64 :: "nat \<Rightarrow> nat \<Rightarrow> nat \<Rightarrow> bytes \<Rightarrow> bytes \<Rightarrow> error + bytes" where
  "a2b_base64 quad_pos leftchar pads out [] =
     (if quad_pos \<noteq> 0 then Inl BinasciiError else Inr out)"
| "a2b_base64 quad_pos leftchar pads out (this_ch # rest) =
     (if this_ch = PAD then
        (if quad_pos \<ge> 2 \<and> quad_pos + (pads + 1) \<ge> 4 then Inr out
         else a2b_base64 quad_pos leftchar (if quad_pos \<ge> 2 then pads + 1 else pads) out rest)
      else
        (case b64_value this_ch of
           None \<Rightarrow> a2b_base64 quad_pos leftchar pads out rest
         | Some v \<Rightarrow>
             (if quad_pos = 0 then a2b_base64 1 v 0 out rest
              else if quad_pos = 1 then
                a2b_base64 2 (v mod 16) 0 (out @ [word_of_nat (leftchar * 4 + v div 16)]) rest
              else if quad_pos = 2 then
                a2b_base64 3 (v mod 4) 0 (out @ [word_of_nat (leftchar * 16 + v div 4)]) rest
              else
                a2b_base64 0 0 0 (out @ [word_of_nat (leftchar * 64 + v)]) rest)))"

definition b64decode :: "bytes \<Rightarrow> error + bytes" where
  "b64decode s = a2b_base64 0 0 0 [] s"

text \<open>\<open>while len(trim_match) % k: trim_match += b'='\<close>.\<close>

definition pad_to :: "nat \<Rightarrow> bytes \<Rightarrow> bytes" where
  "pad_to k trim_match = trim_match @ replicate ((k - length trim_match mod k) mod k) PAD"

text \<open>
  The retry loop \<open>for trim_len in range(len(match), -1, -1)\<close> of \<open>b64_decoder\<close> and
  \<open>b32_decoder\<close>, counting down from \<open>trim_len\<close>: lengths with remainder 1 are skipped,
  every exception of the library decoder is swallowed, and \<open>None\<close> is returned when the
  loop ends.
\<close>

fun trim_retry :: "nat \<Rightarrow> (bytes \<Rightarrow> error + bytes) \<Rightarrow> bytes \<Rightarrow> nat \<Rightarrow> bytes option" where
  "trim_retry k decode match 0 =
     (if 0 mod k = 1 then None
      else (case decode (pad_to k (take 0 match)) of Inr bs \<Rightarrow> Some bs | Inl e \<Rightarrow> None))"
| "trim_retry k decode match (Suc trim_len) =
     (if Suc trim_len mod k = 1 then trim_retry k decode match trim_len
      else (case decode (pad_to k (take (Suc trim_len) match)) of
              Inr bs \<Rightarrow> Some bs
            | Inl e \<Rightarrow> trim_retry k decode match trim_len))"

definition b64_decoder :: "bytes \<Rightarrow> decoded" where
  "b64_decoder match =
     (case b64decode match of
        Inr bs \<Rightarrow> Inr (Some bs)
      | Inl e \<Rightarrow> Inr (trim_retry 4 b64decode match (length match)))"


subsection \<open>Base32\<close>

definition b32_alphabet :: bytes where
  "b32_alphabet = ascii ''ABCDEFGHIJKLMNOPQRSTUVWXYZ234567''"

text \<open>\<open>s[i: i + n] for i in range(0, len(s), n)\<close>.\<close>

function chunks :: "nat \<Rightarrow> 'a list \<Rightarrow> 'a list list" where
  "chunks n xs = (if n = 0 \<or> xs = [] then [] else take n xs # chunks n (drop n xs))"
  by pat_completeness auto
termination
  by (relation "measure (\<lambda>(n, xs). length xs)") auto

declare chunks.simps [simp del]

text \<open>\<open>int.from_bytes(s)\<close>, big endian.\<close>

definition from_bytes_big :: "bytes \<Rightarrow> nat" where
  "from_bytes_big s = foldl (\<lambda>acc b. acc * 256 + unat b) 0 s"

text \<open>The table \<open>b32tab2\<close> of the pairs of symbols.\<close>

definition b32tab2 :: "nat \<Rightarrow> bytes" where
  "b32tab2 i = [b32_alphabet ! (i div 32), b32_alphabet ! (i mod 32)]"

definition b32encode :: "bytes \<Rightarrow> bytes" where
  "b32encode s =
     (let leftover = length s mod 5;
          s1 = (if leftover \<noteq> 0 then s @ replicate (5 - leftover) 0 else s);
          encoded = concat (map (\<lambda>quantum.
                       let c = from_bytes_big quantum
                       in b32tab2 (c div 2 ^ 30) @ b32tab2 (c div 2 ^ 20 mod 1024)
                          @ b32tab2 (c div 2 ^ 10 mod 1024) @ b32tab2 (c mod 1024))
                     (chunks 5 s1))
      in if leftover = 1 then take (length encoded - 6) encoded @ replicate 6 PAD
         else if leftover = 2 then take (length encoded - 4) encoded @ replicate 4 PAD
         else if leftover = 3 then take (length encoded - 3) encoded @ replicate 3 PAD
         else if leftover = 4 then take (length encoded - 1) encoded @ replicate 1 PAD
         else encoded)"

definition b32_value :: "byte \<Rightarrow> nat option" where
  "b32_value c =
     (let n = unat c in
      if 65 \<le> n \<and> n \<le> 90 then Some (n - 65)
      else if 50 \<le> n \<and> n \<le> 55 then Some (n - 24)
      else None)"

text \<open>\<open>for c in quanta: acc = (acc << 5) + b32rev[c]\<close>, \<open>None\<close> on a \<open>KeyError\<close>.\<close>

fun b32_acc :: "nat \<Rightarrow> bytes \<Rightarrow> nat option" where
  "b32_acc acc [] = Some acc"
| "b32_acc acc (c # quanta) =
     (case b32_value c of None \<Rightarrow> None | Some v \<Rightarrow> b32_acc (acc * 32 + v) quanta)"

text \<open>
  The loop over the quanta of \<open>b32decode\<close>: the bytes decoded so far and the value of
  \<open>acc\<close> after the last quantum.
\<close>

fun b32_quanta :: "bytes \<Rightarrow> nat \<Rightarrow> bytes list \<Rightarrow> error + (bytes \<times> nat)" where
  "b32_quanta decoded acc [] = Inr (decoded, acc)"
| "b32_quanta decoded acc (quanta # rest) =
     (case b32_acc 0 quanta of
        None \<Rightarrow> Inl BinasciiError
      | Some acc1 \<Rightarrow>
          (case to_bytes_big acc1 5 of
             Inl e \<Rightarrow> Inl e
           | Inr bs \<Rightarrow> b32_quanta (decoded @ bs) acc1 rest))"

definition b32decode :: "bytes \<Rightarrow> error + bytes" where
  "b32decode s0 =
     (if length s0 mod 8 \<noteq> 0 then Inl BinasciiError
      else
        (let l = length s0;
             s = rstrip_pad s0;
             padchars = l - length s
         in case b32_quanta [] 0 (chunks 8 s) of
              Inl e \<Rightarrow> Inl e
            | Inr (decoded, acc) \<Rightarrow>
                if l mod 8 \<noteq> 0 \<or> padchars \<notin> {0, 1, 3, 4, 6} then Inl BinasciiError
                else if padchars \<noteq> 0 \<and> decoded \<noteq> [] then
                  (case to_bytes_big (acc * 2 ^ (5 * padchars)) 5 of
                     Inl e \<Rightarrow> Inl e
                   | Inr final \<Rightarrow>
                       Inr (take (length decoded - 5) decoded
                            @ take ((43 - 5 * padchars) div 8) final))
                else Inr decoded))"

definition b32_decoder :: "bytes \<Rightarrow> decoded" where
  "b32_decoder match =
     (case b32decode match of
        Inr bs \<Rightarrow> Inr (Some bs)
      | Inl e \<Rightarrow> Inr (trim_retry 8 b32decode match (length match)))"

subsection \<open>UTF-16 and UTF-32\<close>

text \<open>
  The six codecs of \<open>build_automaton\<close>.  \<open>utf-16\<close> and \<open>utf-32\<close> write a byte order
  mark followed by the text in the byte order of the machine (\<open>sys.byteorder\<close>), and
  on decoding they take the byte order from the mark when there is one.
\<close>

datatype byteorder = Little | Big

datatype codec = UTF_16 | UTF_16_BE | UTF_16_LE | UTF_32 | UTF_32_BE | UTF_32_LE

definition codec_name :: "codec \<Rightarrow> string" where
  "codec_name c =
     (case c of
        UTF_16 \<Rightarrow> ''utf-16'' | UTF_16_BE \<Rightarrow> ''utf-16-be'' | UTF_16_LE \<Rightarrow> ''utf-16-le''
      | UTF_32 \<Rightarrow> ''utf-32'' | UTF_32_BE \<Rightarrow> ''utf-32-be'' | UTF_32_LE \<Rightarrow> ''utf-32-le'')"

definition surrogate :: "nat \<Rightarrow> bool" where
  "surrogate cp = (55296 \<le> cp \<and> cp \<le> 57343)"

definition unit16 :: "byteorder \<Rightarrow> nat \<Rightarrow> bytes" where
  "unit16 bo u =
     (case bo of
        Little \<Rightarrow> [word_of_nat (u mod 256), word_of_nat (u div 256)]
      | Big \<Rightarrow> [word_of_nat (u div 256), word_of_nat (u mod 256)])"

definition unit32 :: "byteorder \<Rightarrow> nat \<Rightarrow> bytes" where
  "unit32 bo u =
     (case bo of
        Little \<Rightarrow> [word_of_nat (u mod 256), word_of_nat (u div 256 mod 256),
                   word_of_nat (u div 65536 mod 256), word_of_nat (u div 16777216)]
      | Big \<Rightarrow> [word_of_nat (u div 16777216), word_of_nat (u div 65536 mod 256),
                word_of_nat (u div 256 mod 256), word_of_nat (u mod 256)])"

definition read16 :: "byteorder \<Rightarrow> byte \<Rightarrow> byte \<Rightarrow> nat" where
  "read16 bo b0 b1 =
     (case bo of Little \<Rightarrow> unat b1 * 256 + unat b0 | Big \<Rightarrow> unat b0 * 256 + unat b1)"

definition read32 :: "byteorder \<Rightarrow> byte \<Rightarrow> byte \<Rightarrow> byte \<Rightarrow> byte \<Rightarrow> nat" where
  "read32 bo b0 b1 b2 b3 =
     (case bo of
        Little \<Rightarrow> unat b3 * 16777216 + unat b2 * 65536 + unat b1 * 256 + unat b0
      | Big \<Rightarrow> unat b0 * 16777216 + unat b1 * 65536 + unat b2 * 256 + unat b3)"

text \<open>Encoding raises \<open>UnicodeEncodeError\<close> on a surrogate code point.\<close>

fun utf16_encode :: "byteorder \<Rightarrow> str \<Rightarrow> error + bytes" where
  "utf16_encode bo [] = Inr []"
| "utf16_encode bo (cp # cps) =
     (if surrogate cp \<or> cp \<ge> 1114112 then Inl UnicodeEncodeError
      else (case utf16_encode bo cps of
              Inl e \<Rightarrow> Inl e
            | Inr rest \<Rightarrow>
                Inr ((if cp < 65536 then unit16 bo cp
                      else unit16 bo (55296 + (cp - 65536) div 1024)
                           @ unit16 bo (56320 + (cp - 65536) mod 1024))
                     @ rest)))"

fun utf32_encode :: "byteorder \<Rightarrow> str \<Rightarrow> error + bytes" where
  "utf32_encode bo [] = Inr []"
| "utf32_encode bo (cp # cps) =
     (if surrogate cp \<or> cp \<ge> 1114112 then Inl UnicodeEncodeError
      else (case utf32_encode bo cps of
              Inl e \<Rightarrow> Inl e
            | Inr rest \<Rightarrow> Inr (unit32 bo cp @ rest)))"

text \<open>
  Decoding one character.  A lone or unpaired surrogate, a truncated unit and, for
  UTF-32, a value that is no scalar value raise \<open>UnicodeDecodeError\<close>.
\<close>

fun utf16_next :: "byteorder \<Rightarrow> bytes \<Rightarrow> (nat \<times> bytes) option" where
  "utf16_next bo (b0 # b1 # rest) =
     (let u = read16 bo b0 b1 in
      if \<not> surrogate u then Some (u, rest)
      else if u \<le> 56319 then
        (case rest of
           c0 # c1 # rest2 \<Rightarrow>
             (let u2 = read16 bo c0 c1 in
              if 56320 \<le> u2 \<and> u2 \<le> 57343
              then Some (65536 + (u - 55296) * 1024 + (u2 - 56320), rest2)
              else None)
         | _ \<Rightarrow> None)
      else None)"
| "utf16_next bo _ = None"

fun utf32_next :: "byteorder \<Rightarrow> bytes \<Rightarrow> (nat \<times> bytes) option" where
  "utf32_next bo (b0 # b1 # b2 # b3 # rest) =
     (let u = read32 bo b0 b1 b2 b3 in
      if surrogate u \<or> u \<ge> 1114112 then None else Some (u, rest))"
| "utf32_next bo _ = None"

lemma utf16_next_shorter: "utf16_next bo bs = Some (cp, r) \<Longrightarrow> length r < length bs"
  by (induction bo bs rule: utf16_next.induct)
    (auto simp: Let_def split: if_splits list.splits)

lemma utf32_next_shorter: "utf32_next bo bs = Some (cp, r) \<Longrightarrow> length r < length bs"
  by (induction bo bs rule: utf32_next.induct) (auto simp: Let_def split: if_splits)

function utf16_decode :: "byteorder \<Rightarrow> bytes \<Rightarrow> error + str" where
  "utf16_decode bo bs =
     (if bs = [] then Inr []
      else (case utf16_next bo bs of
              None \<Rightarrow> Inl UnicodeDecodeError
            | Some (cp, r) \<Rightarrow>
                (case utf16_decode bo r of Inl e \<Rightarrow> Inl e | Inr cps \<Rightarrow> Inr (cp # cps))))"
  by pat_completeness auto
termination
  by (relation "measure (\<lambda>(bo, bs). length bs)") (auto dest: utf16_next_shorter)

function utf32_decode :: "byteorder \<Rightarrow> bytes \<Rightarrow> error + str" where
  "utf32_decode bo bs =
     (if bs = [] then Inr []
      else (case utf32_next bo bs of
              None \<Rightarrow> Inl UnicodeDecodeError
            | Some (cp, r) \<Rightarrow>
                (case utf32_decode bo r of Inl e \<Rightarrow> Inl e | Inr cps \<Rightarrow> Inr (cp # cps))))"
  by pat_completeness auto
termination
  by (relation "measure (\<lambda>(bo, bs). length bs)") (auto dest: utf32_next_shorter)

declare utf16_decode.simps [simp del] utf32_decode.simps [simp del]

text \<open>\<open>str.encode(codec)\<close> on a machine of byte order \<open>native\<close>.\<close>

definition encode_codec :: "byteorder \<Rightarrow> codec \<Rightarrow> str \<Rightarrow> error + bytes" where
  "encode_codec native c s =
     (case c of
        UTF_16 \<Rightarrow>
          (case utf16_encode native s of
             Inl e \<Rightarrow> Inl e | Inr bs \<Rightarrow> Inr (unit16 native 65279 @ bs))
      | UTF_16_BE \<Rightarrow> utf16_encode Big s
      | UTF_16_LE \<Rightarrow> utf16_encode Little s
      | UTF_32 \<Rightarrow>
          (case utf32_encode native s of
             Inl e \<Rightarrow> Inl e | Inr bs \<Rightarrow> Inr (unit32 native 65279 @ bs))
      | UTF_32_BE \<Rightarrow> utf32_encode Big s
      | UTF_32_LE \<Rightarrow> utf32_encode Little s)"

text \<open>
  \<open>bytes.decode(codec)\<close>.  With \<open>utf-16\<close> and \<open>utf-32\<close> a leading byte order mark is
  consumed and sets the byte order; without one the native order is used.
\<close>

definition decode_codec :: "byteorder \<Rightarrow> codec \<Rightarrow> bytes \<Rightarrow> error + str" where
  "decode_codec native c bs =
     (case c of
        UTF_16 \<Rightarrow>
          (case bs of
             b0 # b1 # rest \<Rightarrow>
               if read16 Little b0 b1 = 65279 then utf16_decode Little rest
               else if read16 Little b0 b1 = 65534 then utf16_decode Big rest
               else utf16_decode native bs
           | _ \<Rightarrow> utf16_decode native bs)
      | UTF_16_BE \<Rightarrow> utf16_decode Big bs
      | UTF_16_LE \<Rightarrow> utf16_decode Little bs
      | UTF_32 \<Rightarrow>
          (case bs of
             b0 # b1 # b2 # b3 # rest \<Rightarrow>
               if read32 Little b0 b1 b2 b3 = 65279 then utf32_decode Little rest
               else if read32 Little b0 b1 b2 b3 = 4294836224 then utf32_decode Big rest
               else utf32_decode native bs
           | _ \<Rightarrow> utf32_decode native bs)
      | UTF_32_BE \<Rightarrow> utf32_decode Big bs
      | UTF_32_LE \<Rightarrow> utf32_decode Little bs)"

text \<open>
  \<open>codec_decoder_generator(codec)\<close>: decode and re-encode as UTF-8, dropping the last
  byte after every failure, until nothing is left.
\<close>

function codec_decoder_loop :: "byteorder \<Rightarrow> codec \<Rightarrow> bytes \<Rightarrow> bytes option" where
  "codec_decoder_loop native c match =
     (if match \<noteq> [] then
        (case decode_codec native c match of
           Inl e \<Rightarrow> codec_decoder_loop native c (butlast match)
         | Inr s \<Rightarrow>
             (case utf8_encode s of
                Inl e \<Rightarrow> codec_decoder_loop native c (butlast match)
              | Inr bs \<Rightarrow> Some bs))
      else None)"
  by pat_completeness auto
termination
  by (relation "measure (\<lambda>(native, c, match). length match)") auto

declare codec_decoder_loop.simps [simp del]

definition codec_decoder :: "byteorder \<Rightarrow> codec \<Rightarrow> bytes \<Rightarrow> decoded" where
  "codec_decoder native c match = Inr (codec_decoder_loop native c match)"

section \<open>The variants of a pattern\<close>

text \<open>
  A variant is the value stored with a word of the automaton: the search pattern, the
  description of the encoding, and the decoder.
\<close>

type_synonym decoder = "bytes \<Rightarrow> decoded"
type_synonym variant = "bytes \<times> string \<times> decoder"
type_synonym automaton = "(bytes \<times> variant) list"

text \<open>
  Modelled from the spec: the class \<open>Automaton\<close> of \<open>stringcheese.ahocorasick\<close> is not
  part of the sources.  By section 4.2 every word is inserted with its variant as output,
  and words that are equal keep all their outputs, so an automaton is modelled as the
  list of the inserted words with their values, in the order of insertion.
\<close>

definition add_word :: "automaton \<Rightarrow> bytes \<Rightarrow> variant \<Rightarrow> automaton" where
  "add_word automaton key val = automaton @ [(key, val)]"

text \<open>Sequencing of steps that may raise.\<close>

definition bind_err :: "error + 'a \<Rightarrow> ('a \<Rightarrow> error + 'b) \<Rightarrow> error + 'b" where
  "bind_err r f = (case r of Inl e \<Rightarrow> Inl e | Inr x \<Rightarrow> f x)"

text \<open>A function that returns bytes, used as a decoder.\<close>

definition returning :: "(bytes \<Rightarrow> error + bytes) \<Rightarrow> decoder" where
  "returning f match = (case f match of Inl e \<Rightarrow> Inl e | Inr bs \<Rightarrow> Inr (Some bs))"

definition identity_decoder :: decoder where
  "identity_decoder match = Inr (Some match)"

text \<open>The loop over the six codecs.\<close>

fun add_codecs :: "byteorder \<Rightarrow> bytes \<Rightarrow> automaton \<Rightarrow> codec list \<Rightarrow> error + automaton" where
  "add_codecs native pattern automaton [] = Inr automaton"
| "add_codecs native pattern automaton (c # rest) =
     bind_err (utf8_decode pattern) (\<lambda>text.
     bind_err (encode_codec native c text) (\<lambda>codec_pattern.
       add_codecs native pattern
         (add_word automaton codec_pattern
            (codec_pattern, codec_name c, codec_decoder native c))
         rest))"

text \<open>The loop \<open>for xorval in range(1, 256)\<close>.\<close>

fun add_xors :: "bytes \<Rightarrow> automaton \<Rightarrow> nat list \<Rightarrow> error + automaton" where
  "add_xors pattern automaton [] = Inr automaton"
| "add_xors pattern automaton (xorval # rest) =
     bind_err (xor_bytes xorval pattern) (\<lambda>xor_pattern.
       add_xors pattern
         (add_word automaton xor_pattern
            (xor_pattern, ''XOR_'' @ str_nat xorval, xor_decoder xorval))
         rest)"

definition build_automaton :: "byteorder \<Rightarrow> bytes \<Rightarrow> error + automaton" where
  "build_automaton native pattern =
     (let automaton = [];
          automaton = add_word automaton pattern (pattern, ''ASCII'', identity_decoder);
          b64pattern = rstrip_pad (b64encode pattern);
          b64pattern = (if length b64pattern mod 3 \<noteq> 0 then butlast b64pattern
                        else b64pattern);
          automaton = add_word automaton b64pattern (b64pattern, ''base64'', b64_decoder);
          b32pattern = rstrip_pad (b32encode pattern);
          b32pattern = (if length b32pattern mod 7 \<noteq> 0 then butlast b32pattern
                        else b32pattern);
          automaton = add_word automaton b32pattern (b32pattern, ''base32'', b32_decoder)
      in
      bind_err (add_codecs native pattern automaton
                  [UTF_16, UTF_16_BE, UTF_16_LE, UTF_32, UTF_32_BE, UTF_32_LE]) (\<lambda>automaton.
      bind_err (add_xors pattern automaton [1..<256]) (\<lambda>automaton.
      let hex_pattern = hexlify pattern;
          automaton = add_word automaton hex_pattern (hex_pattern, ''hex'', hex_decoder)
      in
      bind_err (bytes_of_ints (map unat hex_pattern)) (\<lambda>raw_hex_pattern.
      let automaton = add_word automaton raw_hex_pattern
                        (raw_hex_pattern, ''raw_hex'', hex_bytes_decoder)
      in
      bind_err (utf8_encode (concat (map (\<lambda>pb. format_08b (unat pb)) pattern))) (\<lambda>bin_pattern.
      let automaton = add_word automaton bin_pattern (bin_pattern, ''binary'', binary_decoder)
      in
      bind_err (crypt_rot13 pattern) (\<lambda>raw_rot13_pattern.
      let automaton = add_word automaton raw_rot13_pattern
                        (raw_rot13_pattern, ''raw_rot13'', returning crypt_rot13)
      in
      bind_err (crypt_rot47 pattern) (\<lambda>raw_rot47_pattern.
      let automaton = add_word automaton raw_rot47_pattern
                        (raw_rot47_pattern, ''raw_rot47'', returning crypt_rot47)
      in
      bind_err (bytes_of_ints (map unat bin_pattern)) (\<lambda>raw_bin_pattern.
      let automaton = add_word automaton raw_bin_pattern
                        (raw_bin_pattern, ''raw_binary'', binary_bytes_decoder)
      in Inr automaton))))))))"

section \<open>The match pipeline\<close>

text \<open>
  The slice \<open>s[i:j]\<close> with integer bounds: a negative bound counts from the end, and
  both bounds are clipped to the sequence.
\<close>

definition py_slice :: "'a list \<Rightarrow> int \<Rightarrow> int \<Rightarrow> 'a list" where
  "py_slice s i j =
     (let n = int (length s);
          lo = (if i < 0 then max (i + n) 0 else min i n);
          hi = (if j < 0 then max (j + n) 0 else min j n)
      in take (nat hi - nat lo) (drop (nat lo) s))"

text \<open>
  What \<open>extract_matches\<close> writes: the line announcing a match, the hexadecimal dump of
  the raw match in verbose mode, the processed match, and the final message when nothing
  matched.
\<close>

datatype line =
    MatchFound string string
  | HexDump str
  | Flag str
  | NoMatchFound

text \<open>
  How a part of the run ends: it goes on, it leaves through \<open>sys.exit(0)\<close>, or an
  exception escapes.
\<close>

datatype outcome = Continue | Exited | Raised error

text \<open>
  The body of the loop over the matches of one haystack.  The decoder is called without
  a guard and its result goes to \<open>postprocess_match\<close> as it is.
\<close>

definition handle_match ::
  "bytes \<Rightarrow> string \<Rightarrow> bool \<Rightarrow> bool \<Rightarrow> nat \<times> variant \<Rightarrow> line list \<times> outcome" where
  "handle_match haystack haystack_name fast verbose m =
     (case m of (end_index, (pattern, enc_desc, decoder)) \<Rightarrow>
        (let start_index = int end_index - int (length pattern) + 1;
             raw_match = py_slice haystack start_index (start_index + int MAX_FLAG_LENGTH);
             found = [MatchFound haystack_name enc_desc]
         in case (if verbose
                  then (case utf8_decode (hexlify raw_match) of
                          Inl e \<Rightarrow> Inl e | Inr s \<Rightarrow> Inr (found @ [HexDump s]))
                  else Inr found) of
              Inl e \<Rightarrow> (found, Raised e)
            | Inr written \<Rightarrow>
                (case decoder raw_match of
                   Inl e \<Rightarrow> (written, Raised e)
                 | Inr decoded_flag \<Rightarrow>
                     (case postprocess_match decoded_flag of
                        Inl e \<Rightarrow> (written, Raised e)
                      | Inr processed_match \<Rightarrow>
                          (written @ [Flag processed_match],
                           if fast then Exited else Continue)))))"

fun handle_matches ::
  "bytes \<Rightarrow> string \<Rightarrow> bool \<Rightarrow> bool \<Rightarrow> (nat \<times> variant) list \<Rightarrow> line list \<times> outcome" where
  "handle_matches haystack haystack_name fast verbose [] = ([], Continue)"
| "handle_matches haystack haystack_name fast verbose (m # ms) =
     (case handle_match haystack haystack_name fast verbose m of
        (written, Continue) \<Rightarrow>
          (case handle_matches haystack haystack_name fast verbose ms of
             (more, outcome) \<Rightarrow> (written @ more, outcome))
      | (written, outcome) \<Rightarrow> (written, outcome))"

text \<open>
  The loop over the haystacks.  The matcher \<open>iter\<close> gives the matches of a haystack as
  pairs of the end index and the value stored with the word; \<open>match_found\<close> is threaded
  through.
\<close>

fun scan_haystacks ::
  "(bytes \<Rightarrow> (nat \<times> variant) list) \<Rightarrow> bool \<Rightarrow> bool \<Rightarrow> bool \<Rightarrow> (bytes \<times> string) list
   \<Rightarrow> line list \<times> bool \<times> outcome" where
  "scan_haystacks iter fast verbose match_found [] = ([], match_found, Continue)"
| "scan_haystacks iter fast verbose match_found ((haystack, haystack_name) # rest) =
     (let match_iter = iter haystack
      in case handle_matches haystack haystack_name fast verbose match_iter of
           (written, Continue) \<Rightarrow>
             (case scan_haystacks iter fast verbose (match_found \<or> match_iter \<noteq> []) rest of
                (more, found, outcome) \<Rightarrow> (written @ more, found, outcome))
         | (written, outcome) \<Rightarrow> (written, True, outcome))"

text \<open>
  \<open>extract_matches\<close> from \<open>match_found = False\<close> on; reading the file, the prompts and
  the progress bar are left out.
\<close>

definition extract_matches ::
  "(bytes \<Rightarrow> (nat \<times> variant) list) \<Rightarrow> bytes \<Rightarrow> bool \<Rightarrow> bool \<Rightarrow> line list \<times> outcome" where
  "extract_matches iter file_contents fast verbose =
     (case scan_haystacks iter fast verbose False (generate_haystacks file_contents fast) of
        (written, match_found, Continue) \<Rightarrow>
          (if \<not> match_found then (written @ [NoMatchFound], Continue)
           else (written, Continue))
      | (written, match_found, outcome) \<Rightarrow> (written, outcome))"

text \<open>
  Modelled from the spec: the scan of the automaton, \<open>Automaton.iter\<close> of
  \<open>stringcheese.ahocorasick\<close>, is not part of the sources.  By section 4.2 the haystack is
  walked once from left to right, and at every position a match is emitted for each
  inserted word that ends there, tagged with the offset of its last byte.
\<close>

definition ends_at :: "bytes \<Rightarrow> bytes \<Rightarrow> nat \<Rightarrow> bool" where
  "ends_at key haystack i =
     (length key \<le> Suc i \<and> take (length key) (drop (Suc i - length key) haystack) = key)"

definition iter_matches :: "automaton \<Rightarrow> bytes \<Rightarrow> (nat \<times> variant) list" where
  "iter_matches automaton haystack =
     concat (map (\<lambda>i. map (\<lambda>(key, val). (i, val))
                          (filter (\<lambda>(key, val). ends_at key haystack i) automaton))
                 [0..<length haystack])"

section \<open>Reading a run\<close>

definition is_flag :: "line \<Rightarrow> bool" where
  "is_flag l = (case l of Flag s \<Rightarrow> True | _ \<Rightarrow> False)"

definition is_found :: "line \<Rightarrow> bool" where
  "is_found l = (case l of MatchFound n e \<Rightarrow> True | _ \<Rightarrow> False)"

text \<open>All matches of a run, view by view, each with its haystack and the name of the view.\<close>

definition all_matches ::
  "(bytes \<Rightarrow> (nat \<times> variant) list) \<Rightarrow> (bytes \<times> string) list
   \<Rightarrow> (bytes \<times> string \<times> nat \<times> variant) list" where
  "all_matches iter views =
     concat (map (\<lambda>(haystack, haystack_name).
                    map (\<lambda>m. (haystack, haystack_name, m)) (iter haystack)) views)"

text \<open>
  A match after which the run goes on, and the lines that are written for a list of
  matches when each of them is handled.
\<close>

definition goes_on :: "bool \<Rightarrow> bool \<Rightarrow> bytes \<times> string \<times> nat \<times> variant \<Rightarrow> bool" where
  "goes_on fast verbose x =
     (case x of (h, n, m) \<Rightarrow> snd (handle_match h n fast verbose m) = Continue)"

definition lines_of ::
  "bool \<Rightarrow> bool \<Rightarrow> (bytes \<times> string \<times> nat \<times> variant) list \<Rightarrow> line list" where
  "lines_of fast verbose ms =
     concat (map (\<lambda>(h, n, m). fst (handle_match h n fast verbose m)) ms)"

section \<open>Properties\<close>

lemma xor_nat_byte_bound:
  fixes x :: byte
  assumes "k < 256"
  shows "k XOR unat x < 256"
proof -
  have k: "take_bit 8 k = k"
    using assms by (simp add: take_bit_nat_eq_self_iff)
  have x: "take_bit 8 (unat x) = unat x"
    using unsigned_less [of x, where ?'a = nat] by (simp add: take_bit_nat_eq_self_iff)
  have "take_bit 8 (k XOR unat x) = k XOR unat x"
    by (simp add: take_bit_xor k x)
  moreover have "take_bit 8 (k XOR unat x) < 2 ^ 8"
    by (rule take_bit_nat_less_exp)
  ultimately show ?thesis
    by simp
qed

lemma xor_bytes_eq:
  assumes "k < 256"
  shows "xor_bytes k s = Inr (map (\<lambda>x. word_of_nat k XOR x) s)"
  unfolding xor_bytes_def
  by (induction s) (simp_all add: xor_nat_byte_bound [OF assms] of_nat_xor_eq)

text \<open>
  C7.  For every key in 1..255 and every byte sequence, encoding with the key never
  raises, decoding what was encoded gives the data back, and the decoder returns bytes
  (it neither raises nor returns \<open>None\<close>) on every window.
\<close>

theorem xor_roundtrip:
  assumes "1 \<le> k" and "k \<le> 255"
  shows "(\<exists>enc. xor_bytes k data = Inr enc \<and> xor_decoder k enc = Inr (Some data))
         \<and> (\<exists>out. xor_decoder k window = Inr (Some out))"
proof -
  have k: "k < 256" using assms by simp
  have "map (\<lambda>x. (word_of_nat k :: byte) XOR x) (map (\<lambda>x. word_of_nat k XOR x) data) = data"
    by (induction data) (simp_all add: xor.assoc [symmetric])
  then show ?thesis
    by (simp add: xor_decoder_def xor_bytes_eq [OF k])
qed

theorem xor_roundtrip_witness:
  "(1::nat) \<le> 42 \<and> (42::nat) \<le> 255
   \<and> xor_bytes 42 [70, 76, 65, 71] = Inr [108, 102, 107, 109]
   \<and> xor_decoder 42 [108, 102, 107, 109] = Inr (Some [70, 76, 65, 71])"
  using xor_roundtrip [of 42 "[70, 76, 65, 71]" "[108, 102, 107, 109]"]
  by (simp add: xor_bytes_eq xor_decoder_def)

lemma unprintable_iff: "(b < 32 \<or> b > 126) = (\<not> printable b)" for b :: byte
  by (auto simp: printable_def word_less_nat_alt word_le_nat_alt)

lemma first_unprintable_cut:
  "(case first_unprintable i m of None \<Rightarrow> m | Some j \<Rightarrow> take (j - i) m) = takeWhile printable m
   \<and> (\<forall>j. first_unprintable i m = Some j \<longrightarrow> i \<le> j)"
proof (induction m arbitrary: i)
  case Nil
  show ?case by simp
next
  case (Cons b m)
  show ?case
  proof (cases "printable b")
    case True
    have "first_unprintable i (b # m) = first_unprintable (Suc i) m"
      using True by (simp add: unprintable_iff)
    moreover have "Suc i \<le> j \<Longrightarrow> take (j - i) (b # m) = b # take (j - Suc i) m" for j
    proof -
      assume "Suc i \<le> j"
      then have "j - i = Suc (j - Suc i)" by arith
      then show ?thesis by simp
    qed
    ultimately show ?thesis
      using Cons [of "Suc i"] True by (auto split: option.splits)
  next
    case False
    then show ?thesis by (simp add: unprintable_iff)
  qed
qed

lemma first_unprintable_0:
  "(case first_unprintable 0 m of None \<Rightarrow> m | Some j \<Rightarrow> take j m) = takeWhile printable m"
  using first_unprintable_cut [where i = 0 and m = m] by (auto split: option.splits)

lemma split_byte_first:
  "\<exists>pieces. split_byte sep bs = takeWhile (\<lambda>b. b \<noteq> sep) bs # pieces"
  by (induction bs) auto

lemma utf8_decode_ascii:
  "\<forall>b \<in> set bs. unat b < 128 \<Longrightarrow> utf8_decode bs = Inr (map unat bs)"
proof (induction bs)
  case Nil
  show ?case by (simp add: utf8_decode.simps)
next
  case (Cons b bs)
  then show ?case
    by (subst utf8_decode.simps) simp
qed

lemma spec_postprocess_printable: "b \<in> set (spec_postprocess d) \<Longrightarrow> printable b"
  by (auto simp: spec_postprocess_def Let_def printable_def CLOSING_CHAR_def split: if_splits
      dest!: set_takeWhileD)

text \<open>
  C6.  On every decoded byte sequence, postprocessing returns the longest leading run
  of printable ASCII bytes (32 to 126), cut right after the first closing delimiter
  when the run contains one, as a string.
\<close>

theorem postprocess_match_spec:
  "postprocess_match (Some d) = Inr (map unat (spec_postprocess d))"
proof -
  obtain pieces where sp: "split_byte CLOSING_CHAR (takeWhile printable d)
      = takeWhile (\<lambda>b. b \<noteq> CLOSING_CHAR) (takeWhile printable d) # pieces"
    using split_byte_first by blast
  have "\<forall>b \<in> set (spec_postprocess d). unat b < 128"
    using spec_postprocess_printable [of _ d] by (fastforce simp: printable_def)
  then have "utf8_decode (spec_postprocess d) = Inr (map unat (spec_postprocess d))"
    by (rule utf8_decode_ascii)
  moreover have "postprocess_match (Some d) = utf8_decode (spec_postprocess d)"
    by (simp add: postprocess_match_def first_unprintable_0 sp spec_postprocess_def Let_def)
  ultimately show ?thesis
    by simp
qed

lemma nths_as_filter:
  "nths xs A = map (\<lambda>i. xs ! i) (filter (\<lambda>i. i \<in> A) [0..<length xs])"
proof -
  have "zip xs [0..<length xs] = map (\<lambda>i. (xs ! i, i)) [0..<length xs]"
    by (rule nth_equalityI) simp_all
  then show ?thesis
    by (simp add: nths_def filter_map o_def)
qed

lemma stride_count:
  fixes n len step start :: nat
  assumes "0 < step"
  shows "n < (len + step - 1 - start) div step \<longleftrightarrow> start + n * step < len"
proof -
  have "n < (len + step - 1 - start) div step \<longleftrightarrow> Suc n \<le> (len + step - 1 - start) div step"
    by arith
  also have "\<dots> \<longleftrightarrow> Suc n * step \<le> len + step - 1 - start"
    using assms by (rule less_eq_div_iff_mult_less_eq)
  also have "\<dots> \<longleftrightarrow> start + n * step < len"
    using assms by auto
  finally show ?thesis .
qed

lemma stride_indices:
  fixes len step start :: nat
  assumes "0 < step"
  shows "filter (\<lambda>i. \<exists>n. i = start + n * step) [0..<len]
         = map (\<lambda>n. start + n * step) [0..<(len + step - 1 - start) div step]"
proof (rule sorted_distinct_set_unique)
  show "sorted (filter (\<lambda>i. \<exists>n. i = start + n * step) [0..<len])" by (simp add: sorted_wrt_filter)
  show "distinct (filter (\<lambda>i. \<exists>n. i = start + n * step) [0..<len])" by simp
  have mono: "strict_mono (\<lambda>n. start + n * step)"
    using assms by (simp add: strict_mono_def)
  show "sorted (map (\<lambda>n. start + n * step) [0..<(len + step - 1 - start) div step])"
    using assms by (simp add: sorted_map sorted_wrt_iff_nth_less)
  show "distinct (map (\<lambda>n. start + n * step) [0..<(len + step - 1 - start) div step])"
    using assms by (simp add: distinct_map inj_on_def)
  show "set (filter (\<lambda>i. \<exists>n. i = start + n * step) [0..<len])
        = set (map (\<lambda>n. start + n * step) [0..<(len + step - 1 - start) div step])"
    (is "?L = ?R")
  proof (intro set_eqI iffI)
    fix i assume "i \<in> ?L"
    then obtain n where n: "i = start + n * step" and "i < len" by auto
    then have "n < (len + step - 1 - start) div step"
      using stride_count [OF assms, of n len start] by simp
    with n show "i \<in> ?R" by auto
  next
    fix i assume "i \<in> ?R"
    then obtain n where n: "i = start + n * step"
      and "n < (len + step - 1 - start) div step" by fastforce
    then have "i < len"
      using stride_count [OF assms, of n len start] by simp
    with n show "i \<in> ?L" by auto
  qed
qed

lemma slice_step_nths:
  assumes "0 < step"
  shows "slice_step s start step = nths s {i. \<exists>n. i = start + n * step}"
  by (simp add: slice_step_def nths_as_filter stride_indices [OF assms] o_def)

lemma length_strides:
  "length (concat (map (\<lambda>step. map (f step) [0..<step]) [2..<n])) = (n * (n - 1)) div 2 - 1"
proof (induction n)
  case 0
  show ?case by simp
next
  case (Suc n)
  show ?case
  proof (cases "2 \<le> n")
    case True
    then obtain m where m: "n = Suc (Suc m)" by (metis add_2_eq_Suc le_Suc_ex)
    have "Suc n * n div 2 = n * (n - 1) div 2 + n"
      unfolding m by simp
    moreover have "1 \<le> n * (n - 1) div 2" unfolding m by simp
    ultimately show ?thesis
      using True Suc by simp
  next
    case False
    then have "n = 0 \<or> n = 1" by arith
    then show ?thesis by auto
  qed
qed

text \<open>
  C4 (as amended).  \<open>generate_haystacks\<close> yields, in this order: the buffer itself
  labelled "stream"; for each step from 2 to 32 in full mode and from 2 to 7 in fast mode
  (the configured bound 33 or 8 is excluded) and each start offset below the step, the
  subsequence of the buffer at the positions start, start + step, start + 2 * step, ...
  labelled with the pair; and the reversed buffer labelled "reversed stream".  The
  sequence is finite: 529 views in full mode and 29 in fast mode.
\<close>

theorem generate_haystacks_views:
  "generate_haystacks B fast =
     (B, ''stream'')
     # concat (map (\<lambda>step.
                 map (\<lambda>start. (nths B {i. \<exists>n. i = start + n * step}, stride_name start step))
                     [0..<step])
               [2..<(if fast then 8 else 33)])
     @ [(rev B, ''reversed stream'')]
   \<and> length (generate_haystacks B fast) = (if fast then 29 else 529)"
proof -
  have eq: "map (\<lambda>step. map (\<lambda>startpos. (slice_step B startpos step, stride_name startpos step))
                         [0..<step]) [2..<n]
        = map (\<lambda>step. map (\<lambda>start. (nths B {i. \<exists>n. i = start + n * step},
                                       stride_name start step)) [0..<step]) [2..<n]" for n
    by (rule map_cong [OF refl]) (simp add: slice_step_nths)
  have len: "length (generate_haystacks B fast) = (if fast then 29 else 529)"
    by (simp add: generate_haystacks_def length_strides del: upt_Suc)
  show ?thesis
    using len by (simp add: generate_haystacks_def eq)
qed

text \<open>
  C4 as stated, with the steps running up to the configured maximum itself, gives eight
  more views in fast mode than the generator yields.
\<close>

theorem generate_haystacks_maximum_counterexample:
  "generate_haystacks [] True \<noteq> spec_generate_views [] True"
proof -
  have "length (generate_haystacks [] True) = 29"
    by (simp add: generate_haystacks_def length_strides del: upt_Suc)
  moreover have "length (spec_generate_views [] True) = 37"
    by (simp add: spec_generate_views_def length_strides del: upt_Suc)
  ultimately show ?thesis
    by auto
qed

lemma fold_update_range:
  "a \<le> b \<Longrightarrow>
   fold (\<lambda>i d. d(i + c \<mapsto> g i)) [a..<b] d0 k
     = (if a + c \<le> k \<and> k < b + c then Some (g (k - c)) else d0 k)"
proof (induction b)
  case 0
  then show ?case by auto
next
  case (Suc b)
  show ?case
  proof (cases "a = Suc b")
    case True
    then show ?thesis by auto
  next
    case False
    with Suc.prems have ab: "a \<le> b" by simp
    show ?thesis
      using Suc.IH [OF ab] ab by (auto simp: fun_upd_def)
  qed
qed

lemma rot13_table_eq:
  "rot13_table k =
     (if 97 \<le> k \<and> k < 123 then Some ((k - 97 + 13) mod 26 + 97)
      else if 65 \<le> k \<and> k < 91 then Some ((k - 65 + 13) mod 26 + 65)
      else None)"
proof -
  have inner: "fold (\<lambda>i d. d(i + c \<mapsto> (i + 13) mod 26 + c)) [0..<26] d0 k
      = (if c \<le> k \<and> k < 26 + c then Some ((k - c + 13) mod 26 + c) else d0 k)" for c d0
    by (subst fold_update_range) simp_all
  show ?thesis
    unfolding rot13_table_def fold_simps id_apply inner by auto
qed

lemma rot47_table_eq:
  "rot47_table k =
     (if 80 \<le> k \<and> k < 127 then Some (k - 47)
      else if 33 \<le> k \<and> k < 80 then Some (k + 47)
      else None)"
proof -
  have lower: "fold (\<lambda>letter d. d(letter + 33 \<mapsto> (33 + letter) + 47)) [0..<47] d0 k
      = (if 33 \<le> k \<and> k < 80 then Some (33 + (k - 33) + 47) else d0 k)" for d0
    by (subst fold_update_range) simp_all
  have upper: "fold (\<lambda>letter d. d(letter + 33 \<mapsto> (33 + letter) - 47)) [47..<94] d0 k
      = (if 80 \<le> k \<and> k < 127 then Some (33 + (k - 33) - 47) else d0 k)" for d0
    by (subst fold_update_range) simp_all
  show ?thesis
    unfolding rot47_table_def lower upper by auto
qed

lemma rot13_shift: "m < 26 \<Longrightarrow> ((m + 13) mod 26 + 13) mod 26 = m" for m :: nat
  by (cases "m < 13") (auto simp: mod_if)

lemma rot13_char_lower: "i < 26 \<Longrightarrow> rot13_char (i + 97) = (i + 13) mod 26 + 97"
  by (simp add: rot13_char_def rot13_table_eq)

lemma rot13_char_upper: "i < 26 \<Longrightarrow> rot13_char (i + 65) = (i + 13) mod 26 + 65"
  by (simp add: rot13_char_def rot13_table_eq)

lemma rot13_char_other:
  "\<not> (97 \<le> n \<and> n < 123) \<Longrightarrow> \<not> (65 \<le> n \<and> n < 91) \<Longrightarrow> rot13_char n = n"
  by (auto simp add: rot13_char_def rot13_table_eq)

lemma rot13_char_involution: "rot13_char (rot13_char n) = n"
proof -
  consider i where "i < 26" "n = i + 97" | i where "i < 26" "n = i + 65"
    | "\<not> (97 \<le> n \<and> n < 123)" "\<not> (65 \<le> n \<and> n < 91)"
  proof -
    assume a: "\<And>i. i < 26 \<Longrightarrow> n = i + 97 \<Longrightarrow> thesis"
      and b: "\<And>i. i < 26 \<Longrightarrow> n = i + 65 \<Longrightarrow> thesis"
      and c: "\<not> (97 \<le> n \<and> n < 123) \<Longrightarrow> \<not> (65 \<le> n \<and> n < 91) \<Longrightarrow> thesis"
    show thesis
    proof (cases "97 \<le> n \<and> n < 123")
      case True
      then show thesis using a [of "n - 97"] by simp
    next
      case False
      show thesis
      proof (cases "65 \<le> n \<and> n < 91")
        case True
        then show thesis using b [of "n - 65"] by simp
      next
        case False': False
        show thesis using c False False' by blast
      qed
    qed
  qed
  then show ?thesis
  proof cases
    case 1
    have "(i + 13) mod 26 < 26" by simp
    then have "rot13_char ((i + 13) mod 26 + 97) = ((i + 13) mod 26 + 13) mod 26 + 97"
      by (rule rot13_char_lower)
    then show ?thesis
      using 1 by (simp only: rot13_char_lower rot13_shift)
  next
    case 2
    have "(i + 13) mod 26 < 26" by simp
    then have "rot13_char ((i + 13) mod 26 + 65) = ((i + 13) mod 26 + 13) mod 26 + 65"
      by (rule rot13_char_upper)
    then show ?thesis
      using 2 by (simp only: rot13_char_upper rot13_shift)
  next
    case 3
    then show ?thesis by (simp add: rot13_char_other)
  qed
qed


lemma rot13_char_ascii: "n < 128 \<Longrightarrow> rot13_char n < 128"
proof (cases "97 \<le> n \<and> n < 123")
  case True
  then have "rot13_char (n - 97 + 97) = (n - 97 + 13) mod 26 + 97"
    by (intro rot13_char_lower) arith
  moreover have "(n - 97 + 13) mod 26 < 26" by (rule mod_less_divisor) simp
  ultimately show ?thesis using True by simp
next
  case False
  note nl = this
  assume n: "n < 128"
  show ?thesis
  proof (cases "65 \<le> n \<and> n < 91")
    case True
    then have "rot13_char (n - 65 + 65) = (n - 65 + 13) mod 26 + 65"
      by (intro rot13_char_upper) arith
    moreover have "(n - 65 + 13) mod 26 < 26" by (rule mod_less_divisor) simp
    ultimately show ?thesis using True by simp
  next
    case False
    then show ?thesis using nl n by (simp add: rot13_char_other)
  qed
qed

lemma rot47_char_eq:
  "rot47_char n =
     (if 80 \<le> n \<and> n < 127 then n - 47 else if 33 \<le> n \<and> n < 80 then n + 47 else n)"
  by (simp add: rot47_char_def rot47_table_eq)

lemma rot47_char_involution: "rot47_char (rot47_char n) = n"
  unfolding rot47_char_eq by (auto split: if_splits)

lemma rot47_char_ascii: "n < 128 \<Longrightarrow> rot47_char n < 128"
  unfolding rot47_char_eq by (auto split: if_splits)

lemma utf8_encode_ascii:
  "\<forall>n \<in> set ns. n < 128 \<Longrightarrow> utf8_encode ns = Inr (map word_of_nat ns)"
  by (induction ns) (simp_all add: utf8_encode_char_def)

lemma unat_of_nat_ascii: "n < 128 \<Longrightarrow> unat (word_of_nat n :: byte) = n"
  by (simp add: unat_of_nat)

lemma ascii_substitution:
  assumes f: "\<And>n. n < 128 \<Longrightarrow> f n < 128" and inv: "\<And>n. f (f n) = n"
    and x: "\<forall>b \<in> set x. unat b < 128"
  shows "\<exists>y. utf8_encode (map (\<lambda>c. f (unat c)) x) = Inr y
            \<and> utf8_encode (map (\<lambda>c. f (unat c)) y) = Inr x"
proof -
  let ?y = "map (\<lambda>c. word_of_nat (f (unat c)) :: byte) x"
  have "\<forall>n \<in> set (map (\<lambda>c. f (unat c)) x). n < 128"
    using f x by auto
  then have 1: "utf8_encode (map (\<lambda>c. f (unat c)) x) = Inr ?y"
    by (simp add: utf8_encode_ascii o_def)
  have ret: "map (\<lambda>c. f (unat c)) ?y = map unat x"
    using f x by (simp add: unat_of_nat_ascii inv)
  have "\<forall>n \<in> set (map unat x). n < 128"
    using x by simp
  then have "utf8_encode (map unat x) = Inr (map word_of_nat (map unat x))"
    by (rule utf8_encode_ascii)
  then have 2: "utf8_encode (map (\<lambda>c. f (unat c)) ?y) = Inr x"
    unfolding ret by (simp add: o_def)
  show ?thesis using 1 2 by blast
qed

text \<open>
  C8.  On byte sequences in the ASCII range (every byte below 128), ROT13 and ROT47
  never raise and are self-inverse.
\<close>

theorem rot_self_inverse:
  assumes "\<forall>b \<in> set x. unat b < 128"
  shows "(\<exists>y. crypt_rot13 x = Inr y \<and> crypt_rot13 y = Inr x)
       \<and> (\<exists>z. crypt_rot47 x = Inr z \<and> crypt_rot47 z = Inr x)"
proof -
  have r13: "crypt_rot13 m = utf8_encode (map (\<lambda>c. rot13_char (unat c)) m)" for m
    by (simp add: crypt_rot13_def rot13_char_def)
  have r47: "crypt_rot47 m = utf8_encode (map (\<lambda>c. rot47_char (unat c)) m)" for m
    by (simp add: crypt_rot47_def rot47_char_def)
  show ?thesis
    unfolding r13 r47
    using ascii_substitution [of rot13_char x, OF rot13_char_ascii rot13_char_involution assms]
      ascii_substitution [of rot47_char x, OF rot47_char_ascii rot47_char_involution assms]
    by blast
qed

lemma crypt_rot13_example: "crypt_rot13 [70, 76, 65, 71, 123] = Inr [83, 89, 78, 84, 123]"
  by (simp add: crypt_rot13_def rot13_table_eq utf8_encode_char_def)

lemma crypt_rot47_example: "crypt_rot47 [70, 76, 65, 71, 123] = Inr [117, 123, 112, 118, 76]"
  by (simp add: crypt_rot47_def rot47_table_eq utf8_encode_char_def)

theorem rot_self_inverse_witness:
  "list_all (\<lambda>b. unat b < 128) [70, 76, 65, 71, 123 :: byte]
   \<and> crypt_rot13 [70, 76, 65, 71, 123] = Inr [83, 89, 78, 84, 123]
   \<and> crypt_rot13 [83, 89, 78, 84, 123] = Inr [70, 76, 65, 71, 123]
   \<and> crypt_rot47 [70, 76, 65, 71, 123] = Inr [117, 123, 112, 118, 76]
   \<and> crypt_rot47 [117, 123, 112, 118, 76] = Inr [70, 76, 65, 71, 123]"
proof -
  have h: "\<forall>b \<in> set [70, 76, 65, 71, 123 :: byte]. unat b < 128" by simp
  show ?thesis
    using h rot_self_inverse [OF h] crypt_rot13_example crypt_rot47_example by auto
qed

lemma handle_match_fast_stops: "snd (handle_match h n True v m) \<noteq> Continue"
  by (auto simp: handle_match_def Let_def split: prod.splits sum.splits)

lemma handle_match_lines:
  "length (filter is_flag (fst (handle_match h n f v m))) \<le> 1
   \<and> length (filter is_found (fst (handle_match h n f v m))) = 1"
  by (auto simp: handle_match_def Let_def is_flag_def is_found_def split: prod.splits sum.splits)

lemma handle_matches_fast:
  "handle_matches h n True v (m # ms) = handle_match h n True v m"
proof -
  obtain w oc where hm: "handle_match h n True v m = (w, oc)" by force
  with handle_match_fast_stops [of h n v m] have "oc \<noteq> Continue" by simp
  then show ?thesis
    using hm by (cases oc) simp_all
qed

lemma scan_haystacks_fast:
  "scan_haystacks iter True v mf views =
     (case all_matches iter views of
        [] \<Rightarrow> ([], mf, Continue)
      | (h, n, m) # rest \<Rightarrow>
          (fst (handle_match h n True v m), True, snd (handle_match h n True v m)))"
proof (induction views arbitrary: mf)
  case Nil
  show ?case by (simp add: all_matches_def)
next
  case (Cons view views)
  obtain h n where view: "view = (h, n)" by force
  show ?case
  proof (cases "iter h")
    case Nil
    then show ?thesis
      using Cons [of mf] by (simp add: view all_matches_def split: prod.splits list.splits)
  next
    case (Cons m ms)
    obtain w oc where hm: "handle_match h n True v m = (w, oc)" by force
    with handle_match_fast_stops [of h n v m] have "oc \<noteq> Continue" by simp
    then show ?thesis
      using hm Cons by (cases oc) (simp_all add: view all_matches_def handle_matches_fast)
  qed
qed

lemma sorted_blocks_upt:
  assumes "\<And>i. set (F i) \<subseteq> {i}"
  shows "sorted (concat (map F [0..<n])) \<and> (\<forall>x \<in> set (concat (map F [0..<n])). x < n)"
proof (induction n)
  case 0
  show ?case by simp
next
  case (Suc n)
  let ?before = "concat (map F [0..<n])"
  have IH1: "sorted ?before" and IH2: "\<And>x. x \<in> set ?before \<Longrightarrow> x < n"
    using Suc.IH by blast+
  have same: "\<And>a. a \<in> set (F n) \<Longrightarrow> a = n"
    using assms [of n] by blast
  have "sorted (F n)"
    unfolding sorted_wrt_iff_nth_less
  proof (intro allI impI)
    fix i j assume "i < j" "j < length (F n)"
    then have "F n ! i = n" "F n ! j = n"
      using same by simp_all
    then show "F n ! i \<le> F n ! j" by simp
  qed
  moreover have "\<forall>a \<in> set ?before. \<forall>b \<in> set (F n). a \<le> b"
  proof (intro ballI)
    fix a b assume "a \<in> set ?before" "b \<in> set (F n)"
    then have "a < n" "b = n" using IH2 same by blast+
    then show "a \<le> b" by simp
  qed
  ultimately have s: "sorted (?before @ F n)"
    using IH1 by (simp only: sorted_append)
  have b: "\<forall>x \<in> set (?before @ F n). x < Suc n"
  proof
    fix x assume "x \<in> set (?before @ F n)"
    then have "x \<in> set ?before \<or> x \<in> set (F n)" by simp
    then show "x < Suc n" using IH2 same by (metis less_Suc_eq)
  qed
  have "concat (map F [0..<Suc n]) = ?before @ F n" by simp
  then show ?case using s b by simp
qed

lemma iter_matches_sorted: "sorted (map fst (iter_matches automaton haystack))"
proof -
  let ?F = "\<lambda>i. map (\<lambda>kv. i) (filter (\<lambda>(key, val). ends_at key haystack i) automaton)"
  have "map fst (iter_matches automaton haystack) = concat (map ?F [0..<length haystack])"
    unfolding iter_matches_def map_concat
    by (simp add: o_def case_prod_unfold)
  moreover have "set (?F i) \<subseteq> {i}" for i
    by auto
  then have "sorted (concat (map ?F [0..<length haystack]))"
    using sorted_blocks_upt [of ?F "length haystack"] by blast
  ultimately show ?thesis by simp
qed

lemma scan_haystacks_step_continue:
  assumes "handle_matches h n f v (iter h) = (w, Continue)"
    and "scan_haystacks iter f v (mf \<or> iter h \<noteq> []) views = (w2, mf2, oc2)"
  shows "scan_haystacks iter f v mf ((h, n) # views) = (w @ w2, mf2, oc2)"
  using assms by simp

lemma scan_haystacks_step_stop:
  assumes "handle_matches h n f v (iter h) = (w, oc)" and "oc \<noteq> Continue"
  shows "scan_haystacks iter f v mf ((h, n) # views) = (w, True, oc)"
  using assms by (cases oc) simp_all


lemma unat_byte_lt: "unat (b :: byte) < 256"
  using unsigned_less [of b, where ?'a = nat] by simp

lemma bytes_of_ints_unat: "bytes_of_ints (map unat bs) = Inr bs" for bs :: bytes
  by (induction bs) (simp_all add: unat_byte_lt)

lemma split2:
  fixes a c :: nat
  assumes "c < 64"
  shows "(a * 64 + c) div 64 = a" "(a * 64 + c) mod 64 = c"
  using assms by simp_all

lemma split3:
  fixes a c d :: nat
  assumes "c < 64" "d < 64"
  shows "(a * 4096 + c * 64 + d) div 4096 = a"
    "(a * 4096 + c * 64 + d) div 64 mod 64 = c"
    "(a * 4096 + c * 64 + d) mod 64 = d"
proof -
  have e: "a * 4096 + c * 64 + d = (a * 64 + c) * 64 + d" by simp
  have "c * 64 + d < 4096" using assms by simp
  then show "(a * 4096 + c * 64 + d) div 4096 = a"
    by (simp add: add.assoc)
  show "(a * 4096 + c * 64 + d) div 64 mod 64 = c"
    unfolding e using assms by (simp only: split2)
  show "(a * 4096 + c * 64 + d) mod 64 = d"
    unfolding e using assms by (simp only: split2)
qed

lemma split4:
  fixes a c d e :: nat
  assumes "c < 64" "d < 64" "e < 64"
  shows "(a * 262144 + c * 4096 + d * 64 + e) div 262144 = a"
    "(a * 262144 + c * 4096 + d * 64 + e) div 4096 mod 64 = c"
    "(a * 262144 + c * 4096 + d * 64 + e) div 64 mod 64 = d"
    "(a * 262144 + c * 4096 + d * 64 + e) mod 64 = e"
proof -
  have e1: "a * 262144 + c * 4096 + d * 64 + e = (a * 64 + c) * 4096 + d * 64 + e" by simp
  have e2: "a * 262144 + c * 4096 + d * 64 + e = ((a * 64 + c) * 64 + d) * 64 + e" by simp
  have "c * 4096 + d * 64 + e < 262144" using assms by simp
  then show "(a * 262144 + c * 4096 + d * 64 + e) div 262144 = a"
    by (simp add: add.assoc)
  have "((a * 64 + c) * 4096 + d * 64 + e) div 4096 = a * 64 + c"
    using assms by (simp only: split3)
  then show "(a * 262144 + c * 4096 + d * 64 + e) div 4096 mod 64 = c"
    unfolding e1 using assms by (simp only: split2)
  show "(a * 262144 + c * 4096 + d * 64 + e) div 64 mod 64 = d"
    unfolding e2 using assms by (simp only: split2)
  show "(a * 262144 + c * 4096 + d * 64 + e) mod 64 = e"
    unfolding e2 using assms by (simp only: split2)
qed

lemma utf8_next_encode:
  assumes "utf8_next bs = Some (cp, r)"
  shows "\<exists>enc. utf8_encode_char cp = Some enc \<and> bs = enc @ r \<and> enc \<noteq> []
           \<and> cp < 1114112 \<and> \<not> surrogate cp"
proof -
  obtain b bs' where bs: "bs = b # bs'"
    using assms by (cases bs) simp_all
  define n where "n = unat b"
  have b: "word_of_nat n = b" by (simp add: n_def)
  have n256: "n < 256" by (simp add: n_def unat_byte_lt)
  consider (one) "n < 128" | (two) "194 \<le> n" "n \<le> 223" | (three) "224 \<le> n" "n \<le> 239"
    | (four) "240 \<le> n" "n \<le> 244"
    | (bad) "\<not> n < 128" "\<not> (194 \<le> n \<and> n \<le> 223)" "\<not> (224 \<le> n \<and> n \<le> 239)"
        "\<not> (240 \<le> n \<and> n \<le> 244)"
    by blast
  then show ?thesis
  proof cases
    case one
    then have "cp = n" "r = bs'"
      using assms by (simp_all add: bs n_def)
    then show ?thesis
      using one b by (simp add: utf8_encode_char_def bs surrogate_def)
  next
    case two
    then obtain c1 where bs': "bs' = c1 # r" and c1: "128 \<le> unat c1" "unat c1 \<le> 191"
      and cp: "cp = (n - 192) * 64 + (unat c1 - 128)"
      using assms
      by (auto simp: bs n_def [symmetric] Let_def in_range_def split: list.splits if_splits)
    define a c where "a = n - 192" and "c = unat c1 - 128"
    have n: "n = 192 + a" and u: "unat c1 = 128 + c" and a: "2 \<le> a" "a < 32" and c: "c < 64"
      using two c1 by (simp_all add: a_def c_def)
    have cpe: "cp = a * 64 + c" by (simp add: cp a_def c_def)
    have lo: "128 \<le> cp" and hi: "cp < 2048"
      using a c by (simp_all add: cpe)
    have d: "cp div 64 = a" "cp mod 64 = c"
      using c by (simp_all add: cpe)
    have "utf8_encode_char cp = Some [word_of_nat n, word_of_nat (unat c1)]"
      using lo hi by (simp add: utf8_encode_char_def d n u)
    then show ?thesis
      using hi by (simp add: b bs bs' surrogate_def)
  next
    case three
    then obtain c1 c2 where bs': "bs' = c1 # c2 # r"
      and c1: "(if n = 224 then 160 else 128) \<le> unat c1"
        "unat c1 \<le> (if n = 237 then 159 else 191)"
      and c2: "128 \<le> unat c2" "unat c2 \<le> 191"
      and cp: "cp = (n - 224) * 4096 + (unat c1 - 128) * 64 + (unat c2 - 128)"
      using assms
      by (auto simp: bs n_def [symmetric] Let_def in_range_def split: list.splits if_splits)
    define a c d where "a = n - 224" and "c = unat c1 - 128" and "d = unat c2 - 128"
    have c1': "128 \<le> unat c1" "unat c1 \<le> 191"
      using c1 by (simp_all split: if_splits)
    have n: "n = 224 + a" and u1: "unat c1 = 128 + c" and u2: "unat c2 = 128 + d"
      and a: "a < 16" and c: "c < 64" and dd: "d < 64"
      using three c1' c2 by (simp_all add: a_def c_def d_def)
    have a0: "a = 0 \<Longrightarrow> 32 \<le> c" and a13: "a = 13 \<Longrightarrow> c < 32"
      using c1 three by (simp_all add: a_def c_def split: if_splits)
    have cpe: "cp = a * 4096 + c * 64 + d" by (simp add: cp a_def c_def d_def)
    have lo: "2048 \<le> cp"
    proof (cases "a = 0")
      case True
      then show ?thesis using a0 by (simp add: cpe)
    next
      case False
      then show ?thesis by (simp add: cpe)
    qed
    have hi: "cp < 65536"
      using a c dd by (simp add: cpe)
    have ns: "\<not> (55296 \<le> cp \<and> cp \<le> 57343)"
    proof (cases "a = 13")
      case True
      then show ?thesis using a13 dd by (simp add: cpe)
    next
      case False
      then have "a \<le> 12 \<or> 14 \<le> a" by arith
      then show ?thesis using c dd by (auto simp: cpe)
    qed
    have d: "cp div 4096 = a" "cp div 64 mod 64 = c" "cp mod 64 = d"
      unfolding cpe using c dd by (simp_all only: split3)
    have "utf8_encode_char cp = Some [word_of_nat n, word_of_nat (unat c1), word_of_nat (unat c2)]"
      using lo hi ns by (simp add: utf8_encode_char_def d n u1 u2)
    then show ?thesis
      using hi ns by (simp add: b bs bs' surrogate_def)
  next
    case four
    then obtain c1 c2 c3 where bs': "bs' = c1 # c2 # c3 # r"
      and c1: "(if n = 240 then 144 else 128) \<le> unat c1"
        "unat c1 \<le> (if n = 244 then 143 else 191)"
      and c2: "128 \<le> unat c2" "unat c2 \<le> 191"
      and c3: "128 \<le> unat c3" "unat c3 \<le> 191"
      and cp: "cp = (n - 240) * 262144 + (unat c1 - 128) * 4096
                    + (unat c2 - 128) * 64 + (unat c3 - 128)"
      using assms
      by (auto simp: bs n_def [symmetric] Let_def in_range_def split: list.splits if_splits)
    define a c d e where "a = n - 240" and "c = unat c1 - 128" and "d = unat c2 - 128"
      and "e = unat c3 - 128"
    have c1': "128 \<le> unat c1" "unat c1 \<le> 191"
      using c1 by (simp_all split: if_splits)
    have n: "n = 240 + a" and u1: "unat c1 = 128 + c" and u2: "unat c2 = 128 + d"
      and u3: "unat c3 = 128 + e"
      and a: "a < 5" and c: "c < 64" and dd: "d < 64" and ee: "e < 64"
      using four c1' c2 c3 by (simp_all add: a_def c_def d_def e_def)
    have a0: "a = 0 \<Longrightarrow> 16 \<le> c" and a4: "a = 4 \<Longrightarrow> c < 16"
      using c1 four by (simp_all add: a_def c_def split: if_splits)
    have cpe: "cp = a * 262144 + c * 4096 + d * 64 + e"
      by (simp add: cp a_def c_def d_def e_def)
    have lo: "65536 \<le> cp"
    proof (cases "a = 0")
      case True
      then show ?thesis using a0 by (simp add: cpe)
    next
      case False
      then show ?thesis by (simp add: cpe)
    qed
    have hi: "cp < 1114112"
    proof (cases "a = 4")
      case True
      then show ?thesis using a4 dd ee by (simp add: cpe)
    next
      case False
      then have "a \<le> 3" using a by arith
      then show ?thesis using c dd ee by (simp add: cpe)
    qed
    have d: "cp div 262144 = a" "cp div 4096 mod 64 = c" "cp div 64 mod 64 = d" "cp mod 64 = e"
      unfolding cpe using c dd ee by (simp_all only: split4)
    have "utf8_encode_char cp =
        Some [word_of_nat n, word_of_nat (unat c1), word_of_nat (unat c2), word_of_nat (unat c3)]"
      using lo hi by (simp add: utf8_encode_char_def d n u1 u2 u3)
    then show ?thesis
      using lo hi by (simp add: b bs bs' surrogate_def)
  next
    case bad
    have no: "(n < 128) = False" "(194 \<le> n \<and> n \<le> 223) = False"
      "(224 \<le> n \<and> n \<le> 239) = False" "(240 \<le> n \<and> n \<le> 244) = False"
      using bad by simp_all
    have "utf8_next bs = None"
      by (simp add: bs n_def [symmetric] Let_def no)
    then show ?thesis
      using assms by simp
  qed
qed

lemma utf8_decode_encode:
  "utf8_decode bs = Inr s \<Longrightarrow>
     utf8_encode s = Inr bs \<and> (\<forall>cp \<in> set s. cp < 1114112 \<and> \<not> surrogate cp)
     \<and> (bs \<noteq> [] \<longrightarrow> s \<noteq> [])"
proof (induction bs arbitrary: s rule: utf8_decode.induct)
  case (1 bs)
  show ?case
  proof (cases "bs = []")
    case True
    then show ?thesis using "1.prems" by (simp add: utf8_decode.simps)
  next
    case False
    then obtain cp r cps where nx: "utf8_next bs = Some (cp, r)"
      and rest: "utf8_decode r = Inr cps" and tx: "s = cp # cps"
      using "1.prems"
      by (subst (asm) utf8_decode.simps) (auto split: option.splits sum.splits)
    obtain enc where enc: "utf8_encode_char cp = Some enc" "bs = enc @ r"
      "cp < 1114112" "\<not> surrogate cp"
      using utf8_next_encode [OF nx] by blast
    have IH: "utf8_encode cps = Inr r \<and> (\<forall>cp \<in> set cps. cp < 1114112 \<and> \<not> surrogate cp)"
      using "1.IH" [OF False nx refl rest] by simp
    show ?thesis
      using enc IH by (simp add: tx)
  qed
qed

lemma unit16_read16:
  assumes "u < 65536"
  shows "\<exists>b0 b1. unit16 bo u = [b0, b1] \<and> read16 bo b0 b1 = u"
proof -
  have "u div 256 < 256" using assms by simp
  then have "u div 256 mod 256 = u div 256" by simp
  then show ?thesis
    by (cases bo) (simp_all add: unit16_def read16_def unat_of_nat)
qed

lemma unit32_read32:
  assumes "u < 1114112"
  shows "\<exists>b0 b1 b2 b3. unit32 bo u = [b0, b1, b2, b3] \<and> read32 bo b0 b1 b2 b3 = u"
proof -
  have a: "u div 16777216 = 0" using assms by simp
  have "u div 65536 < 256" using assms by simp
  then have b: "u div 65536 mod 256 = u div 65536" by simp
  have q: "u div 256 div 256 = u div 65536"
    by (simp add: div_mult2_eq [symmetric])
  have c: "u div 256 = (u div 65536) * 256 + u div 256 mod 256"
    using div_mult_mod_eq [of "u div 256" 256] unfolding q by simp
  have "(u div 65536 * 256 + u div 256 mod 256) * 256 + u mod 256 = u"
    by (subst c [symmetric]) simp
  then have "u div 65536 * 65536 + u div 256 mod 256 * 256 + u mod 256 = u"
    by (simp add: algebra_simps)
  then show ?thesis
    by (cases bo) (simp_all add: unit32_def read32_def unat_of_nat a b)
qed

lemma utf16_next_encode:
  assumes "cp < 1114112" "\<not> surrogate cp"
  shows "\<exists>enc. (if cp < 65536 then unit16 bo cp
               else unit16 bo (55296 + (cp - 65536) div 1024)
                    @ unit16 bo (56320 + (cp - 65536) mod 1024)) = enc
           \<and> enc \<noteq> [] \<and> utf16_next bo (enc @ rest) = Some (cp, rest)"
proof (cases "cp < 65536")
  case True
  obtain b0 b1 where u: "unit16 bo cp = [b0, b1]" "read16 bo b0 b1 = cp"
    using unit16_read16 [OF True] by blast
  show ?thesis
    using True u assms by (simp add: Let_def)
next
  case False
  define hi lo where "hi = 55296 + (cp - 65536) div 1024" and "lo = 56320 + (cp - 65536) mod 1024"
  have "cp - 65536 < 1048576" using assms False by simp
  then have q: "(cp - 65536) div 1024 < 1024" by simp
  have hi: "55296 \<le> hi" "hi \<le> 56319" "hi < 65536" using q by (simp_all add: hi_def)
  have lo: "56320 \<le> lo" "lo \<le> 57343" "lo < 65536" by (simp_all add: lo_def)
  have ret: "65536 + (hi - 55296) * 1024 + (lo - 56320) = cp"
    using False by (simp add: hi_def lo_def)
  obtain b0 b1 where u: "unit16 bo hi = [b0, b1]" "read16 bo b0 b1 = hi"
    using unit16_read16 [OF hi(3)] by blast
  obtain c0 c1 where v: "unit16 bo lo = [c0, c1]" "read16 bo c0 c1 = lo"
    using unit16_read16 [OF lo(3)] by blast
  have "utf16_next bo ([b0, b1, c0, c1] @ rest) = Some (cp, rest)"
    using hi lo ret u(2) v(2) by (simp add: Let_def surrogate_def)
  then show ?thesis
    using False u(1) v(1) by (simp add: hi_def lo_def)
qed

lemma utf16_decode_encode:
  assumes "\<forall>cp \<in> set s. cp < 1114112 \<and> \<not> surrogate cp"
  shows "\<exists>bs. utf16_encode bo s = Inr bs \<and> utf16_decode bo bs = Inr s \<and> (s \<noteq> [] \<longrightarrow> bs \<noteq> [])"
  using assms
proof (induction s)
  case Nil
  show ?case by (simp add: utf16_decode.simps)
next
  case (Cons cp cps)
  then obtain rest where rest: "utf16_encode bo cps = Inr rest" "utf16_decode bo rest = Inr cps"
    by auto
  have cp: "cp < 1114112" "\<not> surrogate cp" using Cons.prems by simp_all
  obtain enc where enc: "(if cp < 65536 then unit16 bo cp
               else unit16 bo (55296 + (cp - 65536) div 1024)
                    @ unit16 bo (56320 + (cp - 65536) mod 1024)) = enc"
      "enc \<noteq> []" "utf16_next bo (enc @ rest) = Some (cp, rest)"
    using utf16_next_encode [OF cp, of bo rest] by blast
  have e: "utf16_encode bo (cp # cps) = Inr (enc @ rest)"
    using cp rest(1) enc(1) by simp
  have d: "utf16_decode bo (enc @ rest) = Inr (cp # cps)"
    using enc(2,3) rest(2) by (subst utf16_decode.simps) simp
  show ?case
    using e d enc(2) by simp
qed

lemma utf32_decode_encode:
  assumes "\<forall>cp \<in> set s. cp < 1114112 \<and> \<not> surrogate cp"
  shows "\<exists>bs. utf32_encode bo s = Inr bs \<and> utf32_decode bo bs = Inr s \<and> (s \<noteq> [] \<longrightarrow> bs \<noteq> [])"
  using assms
proof (induction s)
  case Nil
  show ?case by (simp add: utf32_decode.simps)
next
  case (Cons cp cps)
  then obtain rest where rest: "utf32_encode bo cps = Inr rest" "utf32_decode bo rest = Inr cps"
    by auto
  have cp: "cp < 1114112" "\<not> surrogate cp" using Cons.prems by simp_all
  obtain b0 b1 b2 b3 where u: "unit32 bo cp = [b0, b1, b2, b3]" "read32 bo b0 b1 b2 b3 = cp"
    using unit32_read32 [OF cp(1)] by blast
  have e: "utf32_encode bo (cp # cps) = Inr ([b0, b1, b2, b3] @ rest)"
    using cp rest(1) u(1) by simp
  have "utf32_next bo ([b0, b1, b2, b3] @ rest) = Some (cp, rest)"
    using cp u(2) by (simp add: Let_def)
  then have d: "utf32_decode bo ([b0, b1, b2, b3] @ rest) = Inr (cp # cps)"
    using rest(2) by (subst utf32_decode.simps) simp
  show ?case
    using e d by simp
qed

lemma bom16:
  "\<exists>b0 b1. unit16 native 65279 = [b0, b1]
     \<and> (if native = Little then read16 Little b0 b1 = 65279 else read16 Little b0 b1 = 65534)"
  by (cases native) (simp_all add: unit16_def read16_def)

lemma bom32:
  "\<exists>b0 b1 b2 b3. unit32 native 65279 = [b0, b1, b2, b3]
     \<and> (if native = Little then read32 Little b0 b1 b2 b3 = 65279
         else read32 Little b0 b1 b2 b3 = 4294836224)"
  by (cases native) (simp_all add: unit32_def read32_def)

lemma codec_decode_encode:
  assumes "\<forall>cp \<in> set s. cp < 1114112 \<and> \<not> surrogate cp"
  shows "\<exists>bs. encode_codec native c s = Inr bs \<and> decode_codec native c bs = Inr s
           \<and> (s \<noteq> [] \<longrightarrow> bs \<noteq> [])"
proof -
  obtain l16 where l16: "utf16_encode Little s = Inr l16" "utf16_decode Little l16 = Inr s"
    "s \<noteq> [] \<longrightarrow> l16 \<noteq> []"
    using utf16_decode_encode [OF assms, of Little] by blast
  obtain b16 where b16: "utf16_encode Big s = Inr b16" "utf16_decode Big b16 = Inr s"
    "s \<noteq> [] \<longrightarrow> b16 \<noteq> []"
    using utf16_decode_encode [OF assms, of Big] by blast
  obtain l32 where l32: "utf32_encode Little s = Inr l32" "utf32_decode Little l32 = Inr s"
    "s \<noteq> [] \<longrightarrow> l32 \<noteq> []"
    using utf32_decode_encode [OF assms, of Little] by blast
  obtain b32 where b32: "utf32_encode Big s = Inr b32" "utf32_decode Big b32 = Inr s"
    "s \<noteq> [] \<longrightarrow> b32 \<noteq> []"
    using utf32_decode_encode [OF assms, of Big] by blast
  obtain m0 m1 where m16: "unit16 native 65279 = [m0, m1]"
    "if native = Little then read16 Little m0 m1 = 65279 else read16 Little m0 m1 = 65534"
    using bom16 [of native] by blast
  obtain n0 n1 n2 n3 where m32: "unit32 native 65279 = [n0, n1, n2, n3]"
    "if native = Little then read32 Little n0 n1 n2 n3 = 65279
     else read32 Little n0 n1 n2 n3 = 4294836224"
    using bom32 [of native] by blast
  show ?thesis
  proof (cases c)
    case UTF_16
    then show ?thesis
      using l16 b16 m16 by (cases native) (simp_all add: encode_codec_def decode_codec_def)
  next
    case UTF_16_BE
    then show ?thesis using b16 by (simp add: encode_codec_def decode_codec_def)
  next
    case UTF_16_LE
    then show ?thesis using l16 by (simp add: encode_codec_def decode_codec_def)
  next
    case UTF_32
    then show ?thesis
      using l32 b32 m32 by (cases native) (simp_all add: encode_codec_def decode_codec_def)
  next
    case UTF_32_BE
    then show ?thesis using b32 by (simp add: encode_codec_def decode_codec_def)
  next
    case UTF_32_LE
    then show ?thesis using l32 by (simp add: encode_codec_def decode_codec_def)
  qed
qed

lemma codec_roundtrip:
  assumes "utf8_decode P = Inr s"
  shows "\<exists>bs. encode_codec native c s = Inr bs
           \<and> (P \<noteq> [] \<longrightarrow> bs \<noteq> [] \<and> codec_decoder native c bs = Inr (Some P))"
proof -
  have v: "\<forall>cp \<in> set s. cp < 1114112 \<and> \<not> surrogate cp" and e: "utf8_encode s = Inr P"
    and n: "P \<noteq> [] \<longrightarrow> s \<noteq> []"
    using utf8_decode_encode [OF assms] by simp_all
  obtain bs where bs: "encode_codec native c s = Inr bs" "decode_codec native c bs = Inr s"
    "s \<noteq> [] \<longrightarrow> bs \<noteq> []"
    using codec_decode_encode [OF v] by blast
  have "bs \<noteq> [] \<Longrightarrow> codec_decoder_loop native c bs = Some P"
    using bs(2) e by (subst codec_decoder_loop.simps) simp
  then show ?thesis
    using bs n by (auto simp: codec_decoder_def)
qed

lemma first_index_none: "\<forall>b \<in> set m. \<not> bad b \<Longrightarrow> first_index bad i m = None"
  by (induction m arbitrary: i) simp_all

lemma cut_at_first_none: "\<forall>b \<in> set m. \<not> bad b \<Longrightarrow> cut_at_first bad m = m"
  by (simp add: cut_at_first_def first_index_none)

lemma cut_at_first_head: "bad b \<Longrightarrow> cut_at_first bad (b # m) = []"
  by (simp add: cut_at_first_def)

lemma trim_to_octets_id: "length m mod 8 = 0 \<Longrightarrow> trim_to_octets m = m"
  by (subst trim_to_octets.simps) simp

lemma hexdigits_eq:
  "hexdigits = [48, 49, 50, 51, 52, 53, 54, 55, 56, 57, 97, 98, 99, 100, 101, 102]"
  by (simp add: hexdigits_def ascii_def)

lemma below_16:
  "i < 16 \<Longrightarrow> i \<in> {0, 1, 2, 3, 4, 5, 6, 7, 8, 9, 10, 11, 12, 13, 14, 15}" for i :: nat
  by (simp add: numeral_eq_Suc less_Suc_eq)

lemma hexdigit_value:
  assumes "i < 16"
  shows "hex_value (hexdigits ! i) = Some i" "hexdigits ! i \<in> set hexdigits"
proof -
  show "hexdigits ! i \<in> set hexdigits"
    using assms by (intro nth_mem) (simp add: hexdigits_eq)
  show "hex_value (hexdigits ! i) = Some i"
    using below_16 [OF assms] by (auto simp: hexdigits_eq hex_value_def)
qed

lemma hexlify_props:
  "unhexlify (hexlify P) = Inr P \<and> set (hexlify P) \<subseteq> set hexdigits
   \<and> length (hexlify P) = 2 * length P"
proof (induction P)
  case Nil
  show ?case by (simp add: hexlify_def)
next
  case (Cons b P)
  have hi: "unat b div 16 < 16" using unat_byte_lt [of b] by simp
  have lo: "unat b mod 16 < 16" by simp
  have h: "hexlify (b # P) = hexdigits ! (unat b div 16) # hexdigits ! (unat b mod 16) # hexlify P"
    by (simp add: hexlify_def)
  have w: "(word_of_nat (unat b div 16 * 16 + unat b mod 16) :: byte) = b"
    by simp
  show ?case
    unfolding h using Cons hexdigit_value [OF hi] hexdigit_value [OF lo] w by simp
qed

lemma hex_roundtrip: "hex_decoder (hexlify P) = Inr (Some P)"
proof -
  have c: "cut_at_first (\<lambda>b. b \<notin> set hexdigits) (hexlify P) = hexlify P"
    using hexlify_props [of P] by (intro cut_at_first_none) auto
  show ?thesis
    using hexlify_props [of P] by (simp add: hex_decoder_def c drop_odd_def)
qed

lemma raw_hex_empty:
  assumes "P \<noteq> []"
  shows "hex_bytes_decoder (hexlify P @ rest) = Inr (Some [])"
proof -
  obtain b P' where P: "P = b # P'" using assms by (cases P) auto
  have hi: "unat b div 16 < 16" using unat_byte_lt [of b] by simp
  have "hexdigits ! (unat b div 16) \<in> set hexdigits"
    by (rule hexdigit_value [OF hi])
  then have "hexdigits ! (unat b div 16) > 15"
    by (auto simp: hexdigits_eq)
  then have "cut_at_first (\<lambda>b. b > 15) (hexlify P @ rest) = []"
    by (simp add: P hexlify_def cut_at_first_head)
  then show ?thesis
    by (simp add: hex_bytes_decoder_def drop_odd_def)
qed

lemma bin_digits_set: "set (bin_digits n) \<subseteq> {48, 49}"
proof (induction n rule: bin_digits.induct)
  case (1 n)
  show ?case
  proof (cases "n < 2")
    case True
    then have "n = 0 \<or> n = 1" by arith
    then show ?thesis by (subst bin_digits.simps) auto
  next
    case False
    have "n mod 2 = 0 \<or> n mod 2 = 1" by arith
    then show ?thesis
      using False 1 by (subst bin_digits.simps) auto
  qed
qed

lemma bin_digits_length: "n < 2 ^ k \<Longrightarrow> 0 < k \<Longrightarrow> length (bin_digits n) \<le> k"
proof (induction n arbitrary: k rule: bin_digits.induct)
  case (1 n)
  show ?case
  proof (cases "n < 2")
    case True
    then show ?thesis using "1.prems" by (subst bin_digits.simps) simp
  next
    case False
    obtain j where k: "k = Suc j" using "1.prems" by (cases k) auto
    have "j \<noteq> 0" using False "1.prems" k by (cases j) auto
    moreover have "n div 2 < 2 ^ j" using "1.prems" k by simp
    ultimately have "length (bin_digits (n div 2)) \<le> j"
      using "1.IH" [OF False, of j] by simp
    then show ?thesis
      using False k by (subst bin_digits.simps) simp
  qed
qed

lemma bin_digits_value: "foldl (\<lambda>acc c. 2 * acc + (c - 48)) 0 (bin_digits n) = n"
proof (induction n rule: bin_digits.induct)
  case (1 n)
  show ?case
  proof (cases "n < 2")
    case True
    then show ?thesis by (subst bin_digits.simps) simp
  next
    case False
    then show ?thesis
      using 1 by (subst bin_digits.simps) simp
  qed
qed

lemma foldl_zeros: "foldl (\<lambda>acc c. 2 * acc + (c - 48)) 0 (replicate k 48 @ ds)
    = foldl (\<lambda>acc c. 2 * acc + (c - 48)) (0::nat) ds"
  by (induction k) simp_all

lemma format_08b_props:
  assumes "pb < 256"
  shows "length (format_08b pb) = 8" "set (format_08b pb) \<subseteq> {48, 49}"
    "foldl (\<lambda>acc c. 2 * acc + (c - 48)) 0 (format_08b pb) = pb"
proof -
  have "pb < 2 ^ 8" using assms by simp
  then have "length (bin_digits pb) \<le> 8"
    by (rule bin_digits_length) simp
  then show "length (format_08b pb) = 8"
    by (simp add: format_08b_def)
  show "set (format_08b pb) \<subseteq> {48, 49}"
    using bin_digits_set [of pb] by (auto simp: format_08b_def)
  show "foldl (\<lambda>acc c. 2 * acc + (c - 48)) 0 (format_08b pb) = pb"
    by (simp only: format_08b_def foldl_zeros bin_digits_value)
qed

lemma foldl_bits_acc:
  "foldl (\<lambda>acc c. 2 * acc + (c - 48)) acc ds
     = acc * 2 ^ length ds + foldl (\<lambda>acc c. 2 * acc + (c - 48)) (0::nat) ds"
proof -
  define F where "F = foldl (\<lambda>acc c. 2 * acc + (c - 48) :: nat)"
  have snoc: "F a (xs @ [d]) = 2 * F a xs + (d - 48)" for a xs d
    by (simp add: F_def)
  have "F acc ds = acc * 2 ^ length ds + F 0 ds"
  proof (induction ds rule: rev_induct)
    case Nil
    show ?case by (simp add: F_def)
  next
    case (snoc d ds)
    have "F acc (ds @ [d]) = 2 * (acc * 2 ^ length ds + F 0 ds) + (d - 48)"
      by (simp only: \<open>\<And>a xs d. F a (xs @ [d]) = 2 * F a xs + (d - 48)\<close> snoc.IH)
    also have "\<dots> = acc * 2 ^ length (ds @ [d]) + (2 * F 0 ds + (d - 48))"
      by (simp add: algebra_simps)
    also have "2 * F 0 ds + (d - 48) = F 0 (ds @ [d])"
      by (simp only: \<open>\<And>a xs d. F a (xs @ [d]) = 2 * F a xs + (d - 48)\<close>)
    finally show ?case .
  qed
  then show ?thesis by (simp only: F_def)
qed

lemma binary_text_props:
  "length (concat (map (\<lambda>pb. format_08b (unat pb)) P)) = 8 * length P
   \<and> set (concat (map (\<lambda>pb. format_08b (unat pb)) P)) \<subseteq> {48, 49}
   \<and> foldl (\<lambda>acc c. 2 * acc + (c - 48)) 0 (concat (map (\<lambda>pb. format_08b (unat pb)) P))
       = foldl (\<lambda>acc b. acc * 256 + unat b) 0 P"
  for P :: bytes
proof (induction P rule: rev_induct)
  case Nil
  show ?case by simp
next
  case (snoc b P)
  let ?T = "\<lambda>P :: bytes. concat (map (\<lambda>pb. format_08b (unat pb)) P)"
  let ?V = "foldl (\<lambda>acc c. 2 * acc + (c - 48) :: nat)"
  note f = format_08b_props [OF unat_byte_lt [of b]]
  have T: "?T (P @ [b]) = ?T P @ format_08b (unat b)" by simp
  have "?V 0 (?T P @ format_08b (unat b)) = ?V (?V 0 (?T P)) (format_08b (unat b))"
    by (simp only: foldl_append)
  also have "\<dots> = ?V 0 (?T P) * 2 ^ length (format_08b (unat b)) + ?V 0 (format_08b (unat b))"
    by (rule foldl_bits_acc)
  also have "\<dots> = ?V 0 (?T P) * 256 + unat b"
    by (simp only: f) simp
  finally have v: "?V 0 (?T (P @ [b])) = foldl (\<lambda>acc b. acc * 256 + unat b) 0 (P @ [b])"
    using snoc by (simp only: T) simp
  have l: "length (?T (P @ [b])) = 8 * length (P @ [b])"
    using snoc f(1) by (simp only: T) simp
  have m: "set (?T (P @ [b])) \<subseteq> {48, 49}"
    using snoc f(2) by (simp only: T) simp
  show ?case
    using v l m by blast
qed

lemma to_bytes_big_from:
  "to_bytes_big (foldl (\<lambda>acc b. acc * 256 + unat b) 0 P) (length P) = Inr P" for P :: bytes
proof -
  define N where "N = (\<lambda>P :: bytes. foldl (\<lambda>acc b. acc * 256 + unat b) 0 P)"
  have Nsnoc: "N (P @ [b]) = N P * 256 + unat b" for P b
    by (simp add: N_def)
  have "N P < 256 ^ length P
      \<and> map (\<lambda>i. word_of_nat (N P div 256 ^ (length P - 1 - i) mod 256)) [0..<length P] = P"
  proof (induction P rule: rev_induct)
    case Nil
    show ?case by (simp add: N_def)
  next
    case (snoc b P)
    have b: "unat b < 256" by (rule unat_byte_lt)
    have "N P + 1 \<le> 256 ^ length P" using snoc by simp
    then have "(N P + 1) * 256 \<le> 256 ^ length P * 256" by (rule mult_le_mono1)
    then have lt: "N (P @ [b]) < 256 ^ length (P @ [b])"
      using b by (simp add: Nsnoc)
    have step: "word_of_nat (N (P @ [b]) div 256 ^ (length (P @ [b]) - 1 - i) mod 256)
        = (P ! i :: byte)" if i: "i < length P" for i
    proof -
      have k: "length (P @ [b]) - 1 - i = Suc (length P - 1 - i)" using i by simp
      have "(N P * 256 + unat b) div 256 ^ Suc (length P - 1 - i)
          = (N P * 256 + unat b) div 256 div 256 ^ (length P - 1 - i)"
        by (simp add: div_mult2_eq)
      also have "(N P * 256 + unat b) div 256 = N P" using b by simp
      finally have "N (P @ [b]) div 256 ^ (length (P @ [b]) - 1 - i)
          = N P div 256 ^ (length P - 1 - i)"
        by (simp only: k Nsnoc)
      moreover have "word_of_nat (N P div 256 ^ (length P - 1 - i) mod 256) = (P ! i :: byte)"
      proof -
        have "map (\<lambda>i. word_of_nat (N P div 256 ^ (length P - 1 - i) mod 256) :: byte)
                [0..<length P] ! i = P ! i"
          using snoc by simp
        then show ?thesis using i by simp
      qed
      ultimately show ?thesis by simp
    qed
    have final: "word_of_nat (N (P @ [b]) div 256 ^ (length (P @ [b]) - 1 - length P) mod 256)
        = b"
      using b by (simp add: Nsnoc)
    have "map (\<lambda>i. word_of_nat (N (P @ [b]) div 256 ^ (length (P @ [b]) - 1 - i) mod 256))
            [0..<length (P @ [b])] = P @ [b]"
    proof (rule nth_equalityI)
      show "length (map (\<lambda>i. word_of_nat (N (P @ [b]) div 256 ^ (length (P @ [b]) - 1 - i) mod 256) :: byte)
            [0..<length (P @ [b])]) = length (P @ [b])"
        by simp
    next
      fix i
      assume "i < length (map (\<lambda>i. word_of_nat (N (P @ [b]) div 256 ^ (length (P @ [b]) - 1 - i) mod 256) :: byte)
            [0..<length (P @ [b])])"
      then have i: "i < Suc (length P)" by simp
      show "map (\<lambda>i. word_of_nat (N (P @ [b]) div 256 ^ (length (P @ [b]) - 1 - i) mod 256))
            [0..<length (P @ [b])] ! i = (P @ [b]) ! i"
      proof (cases "i < length P")
        case True
        have "map (\<lambda>i. word_of_nat (N (P @ [b]) div 256 ^ (length (P @ [b]) - 1 - i) mod 256) :: byte)
            [0..<length (P @ [b])] ! i
            = word_of_nat (N (P @ [b]) div 256 ^ (length (P @ [b]) - 1 - i) mod 256)"
          using i by (simp del: upt_Suc)
        then show ?thesis
          using step [OF True] True by (simp only: nth_append) simp
      next
        case False
        then have e: "i = length P" using i by simp
        have "map (\<lambda>i. word_of_nat (N (P @ [b]) div 256 ^ (length (P @ [b]) - 1 - i) mod 256) :: byte)
            [0..<length (P @ [b])] ! i
            = word_of_nat (N (P @ [b]) div 256 ^ (length (P @ [b]) - 1 - i) mod 256)"
          using i by (simp del: upt_Suc)
        then show ?thesis
          using final by (simp only: e nth_append_length)
      qed
    qed
    then show ?case using lt by blast
  qed
  then show ?thesis by (simp add: to_bytes_big_def N_def)
qed

lemma utf8_encode_total:
  assumes "\<forall>cp \<in> set s. cp < 1114112 \<and> \<not> surrogate cp"
  shows "\<exists>bs. utf8_encode s = Inr bs \<and> length s \<le> length bs"
  using assms
proof (induction s)
  case Nil
  show ?case by simp
next
  case (Cons cp cps)
  then obtain rest where rest: "utf8_encode cps = Inr rest" "length cps \<le> length rest"
    by auto
  have "cp < 1114112" "\<not> surrogate cp" using Cons.prems by simp_all
  then have "\<exists>enc. utf8_encode_char cp = Some enc \<and> enc \<noteq> []"
    by (simp add: utf8_encode_char_def surrogate_def)
  then obtain enc where enc: "utf8_encode_char cp = Some enc" "enc \<noteq> []"
    by blast
  have "length (enc @ rest) \<ge> Suc (length cps)"
    using enc(2) rest(2) by (cases enc) simp_all
  then show ?case
    using enc(1) rest(1) by simp
qed

lemma rot13_char_byte: "n < 256 \<Longrightarrow> rot13_char n < 256"
  by (auto simp: rot13_char_def rot13_table_eq)

lemma rot47_char_byte: "n < 256 \<Longrightarrow> rot47_char n < 256"
  by (auto simp: rot47_char_eq)

lemma crypt_rot_total:
  "\<exists>y. crypt_rot13 P = Inr y \<and> length P \<le> length y"
  "\<exists>z. crypt_rot47 P = Inr z \<and> length P \<le> length z"
proof -
  have b13: "rot13_char (unat c) < 1114112 \<and> \<not> surrogate (rot13_char (unat c))"
    for c :: byte
    using rot13_char_byte [OF unat_byte_lt [of c]] by (simp add: surrogate_def)
  have b47: "rot47_char (unat c) < 1114112 \<and> \<not> surrogate (rot47_char (unat c))"
    for c :: byte
    using rot47_char_byte [OF unat_byte_lt [of c]] by (simp add: surrogate_def)
  have v13: "\<forall>cp \<in> set (map (\<lambda>c. rot13_char (unat c)) P). cp < 1114112 \<and> \<not> surrogate cp"
    by (simp add: b13)
  have v47: "\<forall>cp \<in> set (map (\<lambda>c. rot47_char (unat c)) P). cp < 1114112 \<and> \<not> surrogate cp"
    by (simp add: b47)
  have r13: "crypt_rot13 P = utf8_encode (map (\<lambda>c. rot13_char (unat c)) P)"
    by (simp add: crypt_rot13_def rot13_char_def)
  have r47: "crypt_rot47 P = utf8_encode (map (\<lambda>c. rot47_char (unat c)) P)"
    by (simp add: crypt_rot47_def rot47_char_def)
  show "\<exists>y. crypt_rot13 P = Inr y \<and> length P \<le> length y"
    using utf8_encode_total [OF v13] by (simp add: r13)
  show "\<exists>z. crypt_rot47 P = Inr z \<and> length P \<le> length z"
    using utf8_encode_total [OF v47] by (simp add: r47)
qed

lemma binary_text_encode:
  "utf8_encode (concat (map (\<lambda>pb. format_08b (unat pb)) P))
     = Inr (map word_of_nat (concat (map (\<lambda>pb. format_08b (unat pb)) P)))" for P :: bytes
proof -
  have "\<forall>n \<in> set (concat (map (\<lambda>pb. format_08b (unat pb)) P)). n < 128"
    using binary_text_props [of P] by auto
  then show ?thesis by (rule utf8_encode_ascii)
qed

lemma add_codecs_eq:
  assumes "utf8_decode P = Inr s"
  shows "add_codecs native P a0 cs =
     Inr (a0 @ map (\<lambda>c. (projr (encode_codec native c s), projr (encode_codec native c s),
                           codec_name c, codec_decoder native c)) cs)"
proof (induction cs arbitrary: a0)
  case Nil
  show ?case by simp
next
  case (Cons c cs)
  obtain bs where bs: "encode_codec native c s = Inr bs"
    using codec_roundtrip [OF assms, of native c] by blast
  show ?case
    by (simp add: assms bs bind_err_def Cons add_word_def)
qed

lemma add_xors_eq:
  assumes "\<forall>k \<in> set ks. k < 256"
  shows "add_xors P a0 ks =
     Inr (a0 @ map (\<lambda>k. (map (\<lambda>x. word_of_nat k XOR x) P, map (\<lambda>x. word_of_nat k XOR x) P,
                           ''XOR_'' @ str_nat k, xor_decoder k)) ks)"
  using assms
proof (induction ks arbitrary: a0)
  case Nil
  show ?case by simp
next
  case (Cons k ks)
  have k: "k < 256" using Cons.prems by simp
  have rest: "\<forall>k \<in> set ks. k < 256" using Cons.prems by simp
  show ?case
    by (simp add: xor_bytes_eq [OF k] bind_err_def Cons.IH [OF rest] add_word_def)
qed

lemma build_automaton_eq:
  fixes P :: bytes
  defines "b64 \<equiv> rstrip_pad (b64encode P)"
    and "b32 \<equiv> rstrip_pad (b32encode P)"
    and "bin \<equiv> map word_of_nat (concat (map (\<lambda>pb. format_08b (unat pb)) P))"
  defines "b64pattern \<equiv> (if length b64 mod 3 \<noteq> 0 then butlast b64 else b64)"
    and "b32pattern \<equiv> (if length b32 mod 7 \<noteq> 0 then butlast b32 else b32)"
  assumes "utf8_decode P = Inr s"
  shows "build_automaton native P =
     Inr ([(P, P, ''ASCII'', identity_decoder),
           (b64pattern, b64pattern, ''base64'', b64_decoder),
           (b32pattern, b32pattern, ''base32'', b32_decoder)]
          @ map (\<lambda>c. (projr (encode_codec native c s), projr (encode_codec native c s),
                       codec_name c, codec_decoder native c))
              [UTF_16, UTF_16_BE, UTF_16_LE, UTF_32, UTF_32_BE, UTF_32_LE]
          @ map (\<lambda>k. (map (\<lambda>x. word_of_nat k XOR x) P, map (\<lambda>x. word_of_nat k XOR x) P,
                       ''XOR_'' @ str_nat k, xor_decoder k)) [1..<256]
          @ [(hexlify P, hexlify P, ''hex'', hex_decoder),
             (hexlify P, hexlify P, ''raw_hex'', hex_bytes_decoder),
             (bin, bin, ''binary'', binary_decoder),
             (projr (crypt_rot13 P), projr (crypt_rot13 P), ''raw_rot13'', returning crypt_rot13),
             (projr (crypt_rot47 P), projr (crypt_rot47 P), ''raw_rot47'', returning crypt_rot47),
             (bin, bin, ''raw_binary'', binary_bytes_decoder)])"
proof -
  obtain y where y: "crypt_rot13 P = Inr y" using crypt_rot_total(1) [of P] by blast
  obtain z where z: "crypt_rot47 P = Inr z" using crypt_rot_total(2) [of P] by blast
  have x: "\<forall>k \<in> set [1..<256]. k < (256::nat)" by simp
  have be: "utf8_encode (concat (map (\<lambda>pb. format_08b (unat pb)) P)) = Inr bin"
    unfolding bin_def by (rule binary_text_encode)
  show ?thesis
    unfolding build_automaton_def Let_def add_word_def
      add_codecs_eq [OF assms(6)] add_xors_eq [OF x]
    by (simp only: bind_err_def sum.case bytes_of_ints_unat be y z sum.sel append.simps
        append_assoc b64_def b32_def b64pattern_def b32pattern_def)
qed

lemma build_automaton_valid:
  assumes "build_automaton native P = Inr a"
  shows "\<exists>s. utf8_decode P = Inr s"
proof (cases "utf8_decode P")
  case (Inl e)
  then have "build_automaton native P = Inl e"
    by (simp add: build_automaton_def Let_def bind_err_def)
  then show ?thesis using assms by simp
next
  case (Inr s)
  then show ?thesis by blast
qed

lemma hexdump_decodes: "utf8_decode (hexlify raw) = Inr (map unat (hexlify raw))"
proof -
  have "\<forall>b \<in> set (hexlify raw). unat b < 128"
    using hexlify_props [of raw] by (auto simp: hexdigits_eq)
  then show ?thesis by (rule utf8_decode_ascii)
qed

lemma handle_match_explicit:
  "handle_match h n f v (end_index, pattern, enc_desc, decoder) =
     (let start_index = int end_index - int (length pattern) + 1;
          raw_match = py_slice h start_index (start_index + int MAX_FLAG_LENGTH);
          found = [MatchFound n enc_desc]
                  @ (if v then [HexDump (map unat (hexlify raw_match))] else [])
      in case decoder raw_match of
           Inl e \<Rightarrow> (found, Raised e)
         | Inr decoded_flag \<Rightarrow>
             (case postprocess_match decoded_flag of
                Inl e \<Rightarrow> (found, Raised e)
              | Inr processed_match \<Rightarrow>
                  (found @ [Flag processed_match], if f then Exited else Continue)))"
  by (simp add: handle_match_def Let_def hexdump_decodes split: sum.splits)

lemma iter_matches_first:
  assumes "ends_at key (b # h) 0"
  shows "\<exists>ms. iter_matches ((key, val) # a) (b # h) = (0, val) # ms"
proof -
  have "[0..<length (b # h)] = 0 # [1..<length (b # h)]"
    by (simp add: upt_rec)
  then show ?thesis
    using assms by (simp add: iter_matches_def)
qed

lemma iter_matches_mem:
  assumes "(key, val) \<in> set a" "i < length h" "ends_at key h i"
  shows "(i, val) \<in> set (iter_matches a h)"
  using assms by (force simp: iter_matches_def)

text \<open>
  C10.  In fast mode the run stops with the first match.  With no match in any view the
  run writes the final message and ends normally.  Otherwise it handles the first match
  of the first view that has one, and nothing else: it announces that match, dumps the
  window in verbose mode, hands the window of at most 2000 bytes that starts at the
  match to the decoder of the variant, writes the postprocessed result and leaves through
  \<open>sys.exit(0)\<close>, or ends with the exception that the decoder or the postprocessing
  raised.  In either case the run does not go on, so at most one match is announced and
  at most one processed match is written, however many matches the buffer has.
\<close>

theorem fast_mode_first_match_only:
  "extract_matches iter B True verbose =
     (case all_matches iter (generate_haystacks B True) of
        [] \<Rightarrow> ([NoMatchFound], Continue)
      | (haystack, haystack_name, end_index, pattern, enc_desc, decoder) # rest \<Rightarrow>
          (let start_index = int end_index - int (length pattern) + 1;
               raw_match = py_slice haystack start_index (start_index + int MAX_FLAG_LENGTH);
               found = [MatchFound haystack_name enc_desc]
                       @ (if verbose then [HexDump (map unat (hexlify raw_match))] else [])
           in case decoder raw_match of
                Inl e \<Rightarrow> (found, Raised e)
              | Inr decoded_flag \<Rightarrow>
                  (case postprocess_match decoded_flag of
                     Inl e \<Rightarrow> (found, Raised e)
                   | Inr processed_match \<Rightarrow> (found @ [Flag processed_match], Exited))))
   \<and> (all_matches iter (generate_haystacks B True) \<noteq> [] \<longrightarrow>
        snd (extract_matches iter B True verbose) \<noteq> Continue)
   \<and> length (filter is_flag (fst (extract_matches iter B True verbose))) \<le> 1
   \<and> length (filter is_found (fst (extract_matches iter B True verbose))) \<le> 1"
proof -
  let ?ms = "all_matches iter (generate_haystacks B True)"
  have eq: "extract_matches iter B True verbose =
     (case ?ms of
        [] \<Rightarrow> ([NoMatchFound], Continue)
      | (h, n, m) # rest \<Rightarrow> handle_match h n True verbose m)"
  proof (cases ?ms)
    case Nil
    then show ?thesis
      by (simp add: extract_matches_def scan_haystacks_fast)
  next
    case (Cons x rest)
    obtain h n m where x: "x = (h, n, m)" by (cases x) auto
    obtain w oc where hm: "handle_match h n True verbose m = (w, oc)" by force
    with handle_match_fast_stops [of h n verbose m] have "oc \<noteq> Continue" by simp
    then show ?thesis
      using Cons x hm by (cases oc) (simp_all add: extract_matches_def scan_haystacks_fast)
  qed
  show ?thesis
  proof (cases ?ms)
    case Nil
    with eq show ?thesis by (simp add: is_flag_def is_found_def)
  next
    case (Cons x rest)
    obtain h n e p d dec where x: "x = (h, n, e, p, d, dec)" by (cases x) auto
    have run: "extract_matches iter B True verbose = handle_match h n True verbose (e, p, d, dec)"
      using eq Cons x by simp
    have 1: "extract_matches iter B True verbose =
       (case ?ms of
          [] \<Rightarrow> ([NoMatchFound], Continue)
        | (haystack, haystack_name, end_index, pattern, enc_desc, decoder) # rest \<Rightarrow>
          (let start_index = int end_index - int (length pattern) + 1;
               raw_match = py_slice haystack start_index (start_index + int MAX_FLAG_LENGTH);
               found = [MatchFound haystack_name enc_desc]
                       @ (if verbose then [HexDump (map unat (hexlify raw_match))] else [])
           in case decoder raw_match of
                Inl e \<Rightarrow> (found, Raised e)
              | Inr decoded_flag \<Rightarrow>
                  (case postprocess_match decoded_flag of
                     Inl e \<Rightarrow> (found, Raised e)
                   | Inr processed_match \<Rightarrow> (found @ [Flag processed_match], Exited))))"
      unfolding run Cons x by (simp add: handle_match_explicit)
    have 2: "snd (extract_matches iter B True verbose) \<noteq> Continue"
      unfolding run by (rule handle_match_fast_stops)
    have 3: "length (filter is_flag (fst (extract_matches iter B True verbose))) \<le> 1"
      and 4: "length (filter is_found (fst (extract_matches iter B True verbose))) \<le> 1"
      unfolding run using handle_match_lines [of h n True verbose "(e, p, d, dec)"] by simp_all
    show ?thesis
      using 1 2 3 4 by blast
  qed
qed

theorem fast_mode_first_match_only_witness:
  "\<exists>a. build_automaton Little [65] = Inr a
     \<and> 2 \<le> length (all_matches (iter_matches a) (generate_haystacks [65, 125, 65, 125] True))
     \<and> extract_matches (iter_matches a) [65, 125, 65, 125] True False
         = ([MatchFound ''stream'' ''ASCII'', Flag [65, 125]], Exited)"
proof -
  let ?B = "[65, 125, 65, 125] :: bytes"
  let ?v = "([65] :: bytes, ''ASCII'', identity_decoder)"
  have "utf8_decode [65] = Inr (map unat [65 :: byte])"
    by (rule utf8_decode_ascii) simp
  from build_automaton_eq [OF this, of Little]
  obtain others where a: "build_automaton Little [65] = Inr (([65], ?v) # others)"
    by simp
  let ?a = "([65], ?v) # others"
  have e0: "ends_at [65] ?B 0" and e2: "ends_at [65] ?B 2"
    by (simp_all add: ends_at_def)
  obtain ms where ms: "iter_matches ?a ?B = (0, ?v) # ms"
    using iter_matches_first [OF e0] by blast
  obtain views where views: "generate_haystacks ?B True = (?B, ''stream'') # views"
    by (simp add: generate_haystacks_def)
  obtain later where first: "all_matches (iter_matches ?a) (generate_haystacks ?B True)
      = (?B, ''stream'', 0, ?v) # later"
    by (simp add: views all_matches_def ms)
  have "(2, ?v) \<in> set (iter_matches ?a ?B)"
    by (rule iter_matches_mem [of "[65]"]) (simp_all add: e2)
  then have "(?B, ''stream'', 2, ?v) \<in> set (all_matches (iter_matches ?a) (generate_haystacks ?B True))"
    by (simp add: views all_matches_def)
  then have "(?B, ''stream'', 2, ?v) \<in> set later"
    by (simp add: first)
  then have two: "2 \<le> length (all_matches (iter_matches ?a) (generate_haystacks ?B True))"
    unfolding first by (cases later) simp_all
  have window: "py_slice ?B 0 (int MAX_FLAG_LENGTH) = ?B"
    by (simp add: py_slice_def MAX_FLAG_LENGTH_def)
  have flag: "postprocess_match (Some ?B) = Inr [65, 125]"
    by (simp add: postprocess_match_def CLOSING_CHAR_def utf8_decode_ascii)
  have "extract_matches (iter_matches ?a) ?B True False
      = ([MatchFound ''stream'' ''ASCII'', Flag [65, 125]], Exited)"
    using fast_mode_first_match_only [of "iter_matches ?a" ?B False]
    by (simp add: first window identity_decoder_def flag)
  then show ?thesis
    using a two by blast
qed

lemma handle_matches_upto:
  "handle_matches h n f v ms =
     (case dropWhile (\<lambda>m. snd (handle_match h n f v m) = Continue) ms of
        [] \<Rightarrow> (concat (map (\<lambda>m. fst (handle_match h n f v m)) ms), Continue)
      | m # rest \<Rightarrow>
          (concat (map (\<lambda>m. fst (handle_match h n f v m))
                     (takeWhile (\<lambda>m. snd (handle_match h n f v m) = Continue) ms))
           @ fst (handle_match h n f v m),
           snd (handle_match h n f v m)))"
proof (induction ms)
  case Nil
  show ?case by simp
next
  case (Cons m ms)
  let ?G = "\<lambda>m. snd (handle_match h n f v m) = Continue"
  let ?L = "\<lambda>m. fst (handle_match h n f v m)"
  note IH = Cons.IH
  obtain w oc where hm: "handle_match h n f v m = (w, oc)" by force
  show ?case
  proof (cases "oc = Continue")
    case True
    have G: "?G m" and L: "?L m = w" using hm True by simp_all
    have dw: "dropWhile ?G (m # ms) = dropWhile ?G ms" using G by simp
    have tw: "takeWhile ?G (m # ms) = m # takeWhile ?G ms" using G by simp
    obtain more oc' where rest: "handle_matches h n f v ms = (more, oc')" by force
    have step: "handle_matches h n f v (m # ms) = (w @ more, oc')"
      using hm True rest by simp
    show ?thesis
    proof (cases "dropWhile ?G ms")
      case Nil
      have "(more, oc') = (concat (map ?L ms), Continue)"
        using IH [unfolded Nil rest] by simp
      then show ?thesis
        unfolding step dw Nil by (simp add: L)
    next
      case (Cons x xs)
      have "(more, oc') = (concat (map ?L (takeWhile ?G ms)) @ ?L x, snd (handle_match h n f v x))"
        using IH [unfolded Cons rest] by simp
      then show ?thesis
        unfolding step dw tw Cons by (simp add: L)
    qed
  next
    case False
    then show ?thesis
      using hm by (cases oc) simp_all
  qed
qed

lemma lines_of_append: "lines_of f v (xs @ ys) = lines_of f v xs @ lines_of f v ys"
  by (simp add: lines_of_def)

lemma lines_of_block:
  "lines_of f v (map (\<lambda>m. (h, n, m)) ms) = concat (map (\<lambda>m. fst (handle_match h n f v m)) ms)"
  by (simp add: lines_of_def o_def)

lemma all_matches_step:
  "all_matches iter ((h, n) # views) = map (\<lambda>m. (h, n, m)) (iter h) @ all_matches iter views"
  by (simp add: all_matches_def)

lemma goes_on_block:
  "goes_on f v \<circ> (\<lambda>m. (h, n, m)) = (\<lambda>m. snd (handle_match h n f v m) = Continue)"
  by (simp add: goes_on_def fun_eq_iff)

lemma scan_haystacks_upto:
  "scan_haystacks iter f v mf views =
     (case dropWhile (goes_on f v) (all_matches iter views) of
        [] \<Rightarrow> (lines_of f v (all_matches iter views), mf \<or> all_matches iter views \<noteq> [], Continue)
      | (h, n, m) # rest \<Rightarrow>
          (lines_of f v (takeWhile (goes_on f v) (all_matches iter views))
           @ fst (handle_match h n f v m),
           True, snd (handle_match h n f v m)))"
proof (induction views arbitrary: mf)
  case Nil
  show ?case by (simp add: all_matches_def lines_of_def)
next
  case (Cons view views)
  note IH = Cons.IH
  obtain h n where view: "view = (h, n)" by force
  let ?G = "\<lambda>m. snd (handle_match h n f v m) = Continue"
  let ?block = "map (\<lambda>m. (h, n, m)) (iter h)"
  let ?later = "all_matches iter views"
  have am: "all_matches iter (view # views) = ?block @ ?later"
    by (simp add: view all_matches_step)
  have dw: "dropWhile (goes_on f v) ?block = map (\<lambda>m. (h, n, m)) (dropWhile ?G (iter h))"
    by (simp add: dropWhile_map goes_on_block)
  have tw: "takeWhile (goes_on f v) ?block = map (\<lambda>m. (h, n, m)) (takeWhile ?G (iter h))"
    by (simp add: takeWhile_map goes_on_block)
  show ?case
  proof (cases "dropWhile ?G (iter h)")
    case Nil
    then have all: "\<And>m. m \<in> set (iter h) \<Longrightarrow> ?G m"
      by (simp add: dropWhile_eq_Nil_conv)
    then have allb: "\<And>x. x \<in> set ?block \<Longrightarrow> goes_on f v x"
      by (auto simp: goes_on_def)
    have hms: "handle_matches h n f v (iter h) = (lines_of f v ?block, Continue)"
      unfolding handle_matches_upto [of h n f v "iter h"] Nil by (simp add: lines_of_block)
    have d: "dropWhile (goes_on f v) (?block @ ?later) = dropWhile (goes_on f v) ?later"
      using allb by (rule dropWhile_append2)
    have t: "takeWhile (goes_on f v) (?block @ ?later) = ?block @ takeWhile (goes_on f v) ?later"
      using allb by (rule takeWhile_append2)
    obtain w2 mf2 oc2 where rest:
      "scan_haystacks iter f v (mf \<or> iter h \<noteq> []) views = (w2, mf2, oc2)"
      by (metis prod_cases3)
    have step: "scan_haystacks iter f v mf (view # views) = (lines_of f v ?block @ w2, mf2, oc2)"
      unfolding view
      using scan_haystacks_step_continue [of h n f v iter _ mf views] hms rest by blast
    show ?thesis
    proof (cases "dropWhile (goes_on f v) ?later")
      case Nil
      have "(w2, mf2, oc2) = (lines_of f v ?later, (mf \<or> iter h \<noteq> []) \<or> ?later \<noteq> [], Continue)"
        using IH [of "mf \<or> iter h \<noteq> []", unfolded Nil rest] by simp
      then have "scan_haystacks iter f v mf (view # views)
          = (lines_of f v (?block @ ?later), mf \<or> ?block @ ?later \<noteq> [], Continue)"
        unfolding step by (simp add: lines_of_append)
      then show ?thesis
        unfolding am d Nil by simp
    next
      case (Cons x rest')
      obtain h' n' m' where x: "x = (h', n', m')" by (cases x) auto
      have "(w2, mf2, oc2) = (lines_of f v (takeWhile (goes_on f v) ?later)
            @ fst (handle_match h' n' f v m'), True, snd (handle_match h' n' f v m'))"
        using IH [of "mf \<or> iter h \<noteq> []", unfolded Cons rest x] by simp
      then have "scan_haystacks iter f v mf (view # views)
          = (lines_of f v (?block @ takeWhile (goes_on f v) ?later)
             @ fst (handle_match h' n' f v m'), True, snd (handle_match h' n' f v m'))"
        unfolding step by (simp add: lines_of_append)
      then show ?thesis
        unfolding am d t Cons x by simp
    qed
  next
    case (Cons m ms')
    have "\<not> ?G (hd (dropWhile ?G (iter h)))"
      by (rule hd_dropWhile) (simp add: Cons)
    then have stop: "snd (handle_match h n f v m) \<noteq> Continue"
      by (simp add: Cons)
    have "m \<in> set (dropWhile ?G (iter h))" by (simp add: Cons)
    then have mem: "(h, n, m) \<in> set ?block"
      using set_dropWhileD by fastforce
    have nb: "\<not> goes_on f v (h, n, m)"
      using stop by (simp add: goes_on_def)
    have hms: "handle_matches h n f v (iter h) =
        (lines_of f v (takeWhile (goes_on f v) ?block) @ fst (handle_match h n f v m),
         snd (handle_match h n f v m))"
      unfolding handle_matches_upto [of h n f v "iter h"] Cons by (simp add: tw lines_of_block)
    have step: "scan_haystacks iter f v mf (view # views) =
        (lines_of f v (takeWhile (goes_on f v) ?block) @ fst (handle_match h n f v m),
         True, snd (handle_match h n f v m))"
      unfolding view
      using scan_haystacks_step_stop [of h n f v iter _ _ mf views] hms stop by blast
    have d: "dropWhile (goes_on f v) (?block @ ?later) = dropWhile (goes_on f v) ?block @ ?later"
      using mem nb by (rule dropWhile_append1)
    have t: "takeWhile (goes_on f v) (?block @ ?later) = takeWhile (goes_on f v) ?block"
      using mem nb by (rule takeWhile_append1)
    show ?thesis
      unfolding step am d t dw Cons by simp
  qed
qed

lemma xor_fixed: "(w XOR x = x) = (w = 0)" for w x :: byte
proof
  assume "w XOR x = x"
  then have "(w XOR x) XOR x = x XOR x" by simp
  then show "w = 0" by (simp add: xor.assoc)
next
  assume "w = 0"
  then show "w XOR x = x" by simp
qed

lemma xor_key_differs:
  assumes "1 \<le> k" "k < 256"
  shows "(word_of_nat k :: byte) XOR x \<noteq> x"
proof -
  have "unat (word_of_nat k :: byte) = k"
    using assms by (simp add: unat_of_nat)
  then have "(word_of_nat k :: byte) \<noteq> 0"
    using assms by auto
  then show ?thesis by (simp add: xor_fixed)
qed

lemma view_of_buffer:
  assumes "(h, n) \<in> set (generate_haystacks B fast)"
  shows "set h \<subseteq> set B \<and> length h \<le> length B"
proof -
  have slice: "set (slice_step B s k) \<subseteq> set B \<and> length (slice_step B s k) \<le> length B"
    if "0 < k" for s k
  proof -
    have "{i. i < length B \<and> i \<in> {i. \<exists>n. i = s + n * k}} \<subseteq> {..<length B}" by auto
    then have "card {i. i < length B \<and> i \<in> {i. \<exists>n. i = s + n * k}} \<le> card {..<length B}"
      by (intro card_mono) simp_all
    then show ?thesis
      unfolding slice_step_nths [OF that] by (simp add: length_nths set_nths_subset)
  qed
  from assms consider "h = B" | s k where "2 \<le> k" "h = slice_step B s k" | "h = rev B"
    by (auto simp: generate_haystacks_def Let_def)
  then show ?thesis
  proof cases
    case 2
    then show ?thesis using slice [of k s] by simp
  qed simp_all
qed

lemma same_bytes: "set xs \<subseteq> {a} \<Longrightarrow> xs = replicate (length xs) a"
  by (rule replicate_length_same [symmetric]) auto

lemma ends_at_foreign:
  assumes "b \<in> set key" "b \<notin> set h"
  shows "\<not> ends_at key h i"
proof
  assume "ends_at key h i"
  then have "take (length key) (drop (Suc i - length key) h) = key"
    by (simp add: ends_at_def)
  then have "set key \<subseteq> set h"
    by (metis set_take_subset set_drop_subset subset_trans)
  then show False using assms by auto
qed

lemma ends_at_single:
  assumes "i < length h"
  shows "ends_at [h ! i] h i"
  using assms by (simp add: ends_at_def Cons_nth_drop_Suc [symmetric])

lemma iter_matches_one_word:
  assumes h: "set h \<subseteq> {c}"
    and others: "\<forall>(key, val) \<in> set others. \<exists>b \<in> set key. b \<noteq> c"
  shows "iter_matches (([c], v) # others) h = map (\<lambda>i. (i, v)) [0..<length h]"
proof -
  have no: "filter (\<lambda>(key, val). ends_at key h i) others = []" for i
  proof -
    have "\<not> ends_at key h i" if mem: "(key, val) \<in> set others" for key val
    proof -
      obtain b where "b \<in> set key" "b \<noteq> c" using others mem by auto
      then show ?thesis using h by (intro ends_at_foreign [of b]) auto
    qed
    then show ?thesis by (auto simp: filter_empty_conv)
  qed
  have yes: "ends_at [c] h i" if "i < length h" for i
  proof -
    have "h ! i = c" using h that by (metis nth_mem singletonD subsetD)
    then show ?thesis using ends_at_single [OF that] by simp
  qed
  have "map (\<lambda>(key, val). (i, val)) (filter (\<lambda>(key, val). ends_at key h i) (([c], v) # others))
      = [(i, v)]" if "i < length h" for i
    using yes [OF that] by (simp add: no)
  then have "map (\<lambda>i. map (\<lambda>(key, val). (i, val))
                 (filter (\<lambda>(key, val). ends_at key h i) (([c], v) # others))) [0..<length h]
      = map (\<lambda>i. [(i, v)]) [0..<length h]"
    by (intro map_cong) simp_all
  then have "iter_matches (([c], v) # others) h = concat (map (\<lambda>i. [(i, v)]) [0..<length h])"
    unfolding iter_matches_def by (rule arg_cong)
  moreover have "concat (map (\<lambda>i. [f i]) xs) = map f xs" for f :: "nat \<Rightarrow> nat \<times> variant" and xs
    by (induction xs) simp_all
  ultimately show ?thesis by simp
qed

lemma ball_append:
  "(\<forall>x \<in> set (xs @ ys). Q x) = ((\<forall>x \<in> set xs. Q x) \<and> (\<forall>x \<in> set ys. Q x))"
  by auto

lemma automaton_of_A:
  "\<exists>others. build_automaton Little [65] = Inr (([65], [65], ''ASCII'', identity_decoder) # others)
     \<and> (\<forall>(key, val) \<in> set others. \<exists>b \<in> set key. b \<noteq> 65)"
proof -
  let ?P = "[65] :: bytes"
  define b64 b32 bin where "b64 = rstrip_pad (b64encode ?P)" and "b32 = rstrip_pad (b32encode ?P)"
    and "bin = (map word_of_nat (concat (map (\<lambda>pb. format_08b (unat pb)) ?P)) :: bytes)"
  define A :: automaton where "A =
     [((if length b64 mod 3 \<noteq> 0 then butlast b64 else b64),
       (if length b64 mod 3 \<noteq> 0 then butlast b64 else b64), ''base64'', b64_decoder),
      ((if length b32 mod 7 \<noteq> 0 then butlast b32 else b32),
       (if length b32 mod 7 \<noteq> 0 then butlast b32 else b32), ''base32'', b32_decoder)]"
  define C :: automaton where "C =
     map (\<lambda>c. (projr (encode_codec Little c [65]), projr (encode_codec Little c [65]),
                codec_name c, codec_decoder Little c))
       [UTF_16, UTF_16_BE, UTF_16_LE, UTF_32, UTF_32_BE, UTF_32_LE]"
  define X :: "nat list \<Rightarrow> automaton" where "X =
     map (\<lambda>k. (map (\<lambda>x. word_of_nat k XOR x) ?P, map (\<lambda>x. word_of_nat k XOR x) ?P,
                ''XOR_'' @ str_nat k, xor_decoder k))"
  define D :: automaton where "D =
     [(hexlify ?P, hexlify ?P, ''hex'', hex_decoder),
      (hexlify ?P, hexlify ?P, ''raw_hex'', hex_bytes_decoder),
      (bin, bin, ''binary'', binary_decoder),
      (projr (crypt_rot13 ?P), projr (crypt_rot13 ?P), ''raw_rot13'', returning crypt_rot13),
      (projr (crypt_rot47 ?P), projr (crypt_rot47 ?P), ''raw_rot47'', returning crypt_rot47),
      (bin, bin, ''raw_binary'', binary_bytes_decoder)]"
  have s: "utf8_decode ?P = Inr [65]"
    using utf8_decode_ascii [of ?P] by simp
  have a: "build_automaton Little ?P =
      Inr ((?P, ?P, ''ASCII'', identity_decoder) # (A @ C @ X [1..<256] @ D))"
    unfolding build_automaton_eq [OF s, of Little] A_def C_def X_def D_def b64_def b32_def bin_def
    by (simp only: append.simps)
  have r4: "replicate 4 (0 :: byte) = [0, 0, 0, 0]" and r6: "replicate 6 (61 :: byte) = [61, 61, 61, 61, 61, 61]"
    by (simp_all add: numeral_eq_Suc)
  have k64: "b64 = [81, 81]"
    by (simp add: b64_def rstrip_pad_def b64_alphabet_def ascii_def PAD_def)
  have k32: "b32 = [73, 69]"
    by (simp add: b32_def rstrip_pad_def b32encode_def b32_alphabet_def ascii_def chunks.simps
        from_bytes_big_def b32tab2_def Let_def r4 r6 PAD_def)
  have "format_08b 65 = [48, 49, 48, 48, 48, 48, 48, 49]"
    by (simp add: format_08b_def bin_digits.simps)
  then have kbin: "bin = [48, 49, 48, 48, 48, 48, 48, 49]"
    by (simp add: bin_def)
  have k13: "crypt_rot13 ?P = Inr [78]"
    using rot13_char_upper [of 0]
    by (simp add: crypt_rot13_def rot13_char_def utf8_encode_char_def split: option.splits)
  have k47: "crypt_rot47 ?P = Inr [112]"
    using rot47_char_eq [of 65]
    by (simp add: crypt_rot47_def rot47_char_def utf8_encode_char_def split: option.splits)
  have khex: "hexlify ?P = [52, 49]"
    by (simp add: hexlify_def hexdigits_eq)
  have pA: "\<forall>(key, val) \<in> set A. \<exists>b \<in> set key. b \<noteq> 65"
    by (simp add: A_def k64 k32)
  have pC: "\<forall>(key, val) \<in> set C. \<exists>b \<in> set key. b \<noteq> 65"
    by (simp add: C_def encode_codec_def unit16_def unit32_def surrogate_def)
  have pX: "\<forall>(key, val) \<in> set (X ks). \<exists>b \<in> set key. b \<noteq> 65"
    if "\<forall>k \<in> set ks. 1 \<le> k \<and> k < 256" for ks
    using that by (auto simp: X_def xor_key_differs)
  have "\<forall>k \<in> set [1..<256]. 1 \<le> k \<and> k < (256::nat)"
    by (simp only: set_upt atLeastLessThan_iff) simp
  then have pX': "\<forall>(key, val) \<in> set (X [1..<256]). \<exists>b \<in> set key. b \<noteq> 65"
    by (rule pX)
  have pD: "\<forall>(key, val) \<in> set D. \<exists>b \<in> set key. b \<noteq> 65"
    by (simp add: D_def khex kbin k13 k47)
  have "\<forall>(key, val) \<in> set (A @ C @ X [1..<256] @ D). \<exists>b \<in> set key. b \<noteq> 65"
    unfolding ball_append using pA pC pX' pD by blast
  then show ?thesis
    using a by blast
qed

lemma postprocess_same_letter:
  assumes "set xs \<subseteq> {65}"
  shows "postprocess_match (Some xs) = Inr (replicate (length xs) 65)"
proof -
  have xs: "xs = replicate (length xs) 65"
    using assms by (rule same_bytes)
  have "\<forall>b \<in> set xs. printable b"
    using assms by (auto simp: printable_def)
  then have "takeWhile printable xs = xs"
    by (simp add: takeWhile_eq_all_conv)
  then have cut: "(case first_unprintable 0 xs of None \<Rightarrow> xs | Some j \<Rightarrow> take j xs) = xs"
    by (simp add: first_unprintable_0)
  have nc: "CLOSING_CHAR \<notin> set xs"
    using assms by (auto simp: CLOSING_CHAR_def)
  have "utf8_decode xs = Inr (map unat xs)"
    using assms by (intro utf8_decode_ascii) auto
  also have "map unat xs = map unat (replicate (length xs) (65 :: byte))"
    using xs by (rule arg_cong)
  also have "\<dots> = replicate (length xs) 65"
    by simp
  finally show ?thesis
    by (simp add: postprocess_match_def Let_def cut nc)
qed

lemma handle_match_same_letter:
  assumes "set h \<subseteq> {65}" "i < length h" "length h \<le> 2000"
  shows "handle_match h n False False (i, [65], ''ASCII'', identity_decoder)
     = ([MatchFound n ''ASCII'', Flag (replicate (length h - i) 65)], Continue)"
proof -
  have w: "py_slice h (int i - int (length [65 :: byte]) + 1)
             (int i - int (length [65 :: byte]) + 1 + int MAX_FLAG_LENGTH) = drop i h"
  proof -
    have "min (int i) (int (length h)) = int i"
      and "min (int i + 2000) (int (length h)) = int (length h)"
      using assms(2,3) by simp_all
    then show ?thesis
      using assms(2) by (simp add: py_slice_def Let_def MAX_FLAG_LENGTH_def)
  qed
  have "set (drop i h) \<subseteq> {65}"
    using assms(1) set_drop_subset [of i h] by blast
  then have "postprocess_match (Some (drop i h)) = Inr (replicate (length h - i) 65)"
    using postprocess_same_letter [of "drop i h"] by simp
  then show ?thesis
    unfolding handle_match_explicit Let_def w by (simp add: identity_decoder_def)
qed

lemma lines_of_concat: "lines_of f v (concat xss) = concat (map (lines_of f v) xss)"
  by (induction xss) (simp_all add: lines_of_def)

text \<open>
  C9.  A run is a function of the matcher, the buffer and the mode, so two runs on the same
  input write the same lines in the same order, and the order is fixed.  The matches are
  taken view by view in the order in which the views are generated and, within a view, in
  the order of the scan, which reports them by non-decreasing end offset.  The run handles
  them one after the other up to and including the first one after which it does not go
  on (an exit or an exception): what is written is exactly the lines of these matches, in
  this order.  When every match lets the run go on, the lines of all matches are written,
  followed by the final message if there was no match at all.
\<close>

theorem pipeline_order:
  "sorted (map fst (iter_matches automaton haystack))
   \<and> extract_matches iter B fast verbose =
       (case dropWhile (goes_on fast verbose) (all_matches iter (generate_haystacks B fast)) of
          [] \<Rightarrow>
            (lines_of fast verbose (all_matches iter (generate_haystacks B fast))
             @ (if all_matches iter (generate_haystacks B fast) = [] then [NoMatchFound] else []),
             Continue)
        | (h, n, m) # rest \<Rightarrow>
            (lines_of fast verbose
               (takeWhile (goes_on fast verbose) (all_matches iter (generate_haystacks B fast)))
             @ fst (handle_match h n fast verbose m),
             snd (handle_match h n fast verbose m)))"
proof -
  let ?ms = "all_matches iter (generate_haystacks B fast)"
  have run: "extract_matches iter B fast verbose =
       (case dropWhile (goes_on fast verbose) ?ms of
          [] \<Rightarrow> (lines_of fast verbose ?ms @ (if ?ms = [] then [NoMatchFound] else []), Continue)
        | (h, n, m) # rest \<Rightarrow>
            (lines_of fast verbose (takeWhile (goes_on fast verbose) ?ms)
             @ fst (handle_match h n fast verbose m),
             snd (handle_match h n fast verbose m)))"
  proof (cases "dropWhile (goes_on fast verbose) ?ms")
    case Nil
    have sc: "scan_haystacks iter fast verbose False (generate_haystacks B fast) =
        (lines_of fast verbose ?ms, ?ms \<noteq> [], Continue)"
      unfolding scan_haystacks_upto [of iter fast verbose False "generate_haystacks B fast"] Nil
      by simp
    show ?thesis
      unfolding Nil by (simp add: extract_matches_def sc)
  next
    case (Cons x rest)
    obtain h n m where x: "x = (h, n, m)" by (cases x) auto
    have "\<not> goes_on fast verbose (hd (dropWhile (goes_on fast verbose) ?ms))"
      by (rule hd_dropWhile) (simp add: Cons)
    then have stop: "snd (handle_match h n fast verbose m) \<noteq> Continue"
      by (simp add: Cons x goes_on_def)
    obtain w oc where hm: "handle_match h n fast verbose m = (w, oc)" by force
    have oc: "oc \<noteq> Continue" using stop hm by simp
    have sc: "scan_haystacks iter fast verbose False (generate_haystacks B fast) =
        (lines_of fast verbose (takeWhile (goes_on fast verbose) ?ms) @ w, True, oc)"
      by (simp only: scan_haystacks_upto [of iter fast verbose False "generate_haystacks B fast"]
          Cons x list.case prod.case hm fst_conv snd_conv)
    have "extract_matches iter B fast verbose =
        (lines_of fast verbose (takeWhile (goes_on fast verbose) ?ms) @ w, oc)"
      using oc by (cases oc) (simp_all add: extract_matches_def sc)
    then show ?thesis
      by (simp only: Cons x list.case prod.case hm fst_conv snd_conv)
  qed
  show ?thesis
    using run iter_matches_sorted by blast
qed

theorem pipeline_order_witness:
  "\<exists>a. build_automaton Little [65] = Inr a
     \<and> extract_matches (iter_matches a) [65, 65] False False
         = (concat (map (\<lambda>(h, name).
                       concat (map (\<lambda>i. [MatchFound name ''ASCII'',
                                          Flag (replicate (length h - i) 65)])
                                 [0..<length h]))
                     (generate_haystacks [65, 65] False)),
            Continue)
     \<and> take 4 (fst (extract_matches (iter_matches a) [65, 65] False False))
         = [MatchFound ''stream'' ''ASCII'', Flag [65, 65],
            MatchFound ''stream'' ''ASCII'', Flag [65]]"
proof -
  let ?B = "[65, 65] :: bytes"
  let ?v = "([65] :: bytes, ''ASCII'', identity_decoder)"
  obtain others where a: "build_automaton Little [65] = Inr (([65], ?v) # others)"
    and others: "\<forall>(key, val) \<in> set others. \<exists>b \<in> set key. b \<noteq> 65"
    using automaton_of_A by blast
  let ?a = "([65], ?v) # others"
  let ?views = "generate_haystacks ?B False"
  let ?blk = "\<lambda>(h, n). map (\<lambda>i. (h, n, i, ?v)) [0..<length h]"
  let ?E = "\<lambda>(h, name). concat (map (\<lambda>i. [MatchFound name ''ASCII'',
                                          Flag (replicate (length h - i) 65)]) [0..<length h])"
  let ?ms = "all_matches (iter_matches ?a) ?views"
  have vw: "set h \<subseteq> {65} \<and> length h \<le> 2000" if "(h, n) \<in> set ?views" for h n
    using view_of_buffer [OF that] by auto
  have it: "iter_matches ?a h = map (\<lambda>i. (i, ?v)) [0..<length h]" if "(h, n) \<in> set ?views" for h n
    using vw [OF that] others by (intro iter_matches_one_word) simp_all
  have "map (\<lambda>(h, n). map (\<lambda>m. (h, n, m)) (iter_matches ?a h)) ?views = map ?blk ?views"
    by (rule map_cong) (auto simp: it)
  then have ms: "?ms = concat (map ?blk ?views)"
    unfolding all_matches_def by (rule arg_cong)
  have go: "goes_on False False x" if mem: "x \<in> set ?ms" for x
  proof -
    obtain h n i where x: "x = (h, n, i, ?v)" and view: "(h, n) \<in> set ?views"
      and i: "i < length h"
      using mem unfolding ms by auto
    show ?thesis
      using vw [OF view] i by (simp add: x goes_on_def handle_match_same_letter)
  qed
  then have dw: "dropWhile (goes_on False False) ?ms = []"
    by simp
  have blk: "lines_of False False (?blk view) = ?E view" if "view \<in> set ?views" for view
  proof -
    obtain h n where view: "view = (h, n)" by force
    have eq: "map (\<lambda>i. fst (handle_match h n False False (i, ?v))) [0..<length h]
        = map (\<lambda>i. [MatchFound n ''ASCII'', Flag (replicate (length h - i) 65)]) [0..<length h]"
      using vw [of h n] that by (intro map_cong) (simp_all add: view handle_match_same_letter)
    have "lines_of False False (?blk (h, n))
        = concat (map (\<lambda>i. fst (handle_match h n False False (i, ?v))) [0..<length h])"
      by (simp add: lines_of_def o_def)
    also have "\<dots> = concat (map (\<lambda>i. [MatchFound n ''ASCII'',
                                          Flag (replicate (length h - i) 65)]) [0..<length h])"
      using eq by (rule arg_cong)
    finally show ?thesis
      by (simp add: view)
  qed
  have "map (lines_of False False) (map ?blk ?views) = map ?E ?views"
    unfolding map_map o_def by (rule map_cong) (simp_all add: blk)
  then have ln: "lines_of False False ?ms = concat (map ?E ?views)"
    unfolding ms lines_of_concat by (rule arg_cong)
  obtain later where views: "?views = (?B, ''stream'') # later"
    by (simp add: generate_haystacks_def)
  have "concat (map ?blk ?views) \<noteq> []"
    unfolding views by simp
  then have ne: "?ms \<noteq> []"
    unfolding ms .
  have run: "extract_matches (iter_matches ?a) ?B False False = (concat (map ?E ?views), Continue)"
    using pipeline_order [of ?a "[]" "iter_matches ?a" ?B False False]
    unfolding dw by (simp add: ne ln)
  have "take 4 (concat (map ?E ?views))
      = [MatchFound ''stream'' ''ASCII'', Flag [65, 65], MatchFound ''stream'' ''ASCII'', Flag [65]]"
    unfolding views by (simp add: upt_rec numeral_eq_Suc)
  then show ?thesis
    using a run by auto
qed

end
